theory Spec2Isabelle
  imports Complex_Main
begin

section \<open>JavaScript numbers\<close>

text \<open>
  Every number of \<^verbatim>\<open>highlighter.js\<close> is an IEEE-754 binary64 value. A finite value is
  kept as the rational it denotes; the two zeros, the two infinities and NaN are separate,
  because the division of \<^verbatim>\<open>update\<close> can produce each of them. \<open>Fin 0\<close> is the
  positive zero.
\<close>

datatype number = Fin rat | NegZero | PosInf | NegInf | NaN

definition pow2 :: "int \<Rightarrow> rat" where
  "pow2 e = (if 0 \<le> e then 2 ^ nat e else 1 / 2 ^ nat (- e))"

text \<open>
  The binade of a positive rational \<open>a\<close>: the exponent \<open>e\<close> with \<open>2^e \<le> a < 2^(e+1)\<close>,
  kept within the exponent range of binary64 (\<open>-1022\<close> for the subnormal numbers, and
  stopping at \<open>1024\<close>, where every value overflows).
\<close>

function expo_up :: "rat \<Rightarrow> int \<Rightarrow> int" where
  "expo_up a e = (if 2 \<le> a \<and> e < 1024 then expo_up (a / 2) (e + 1) else e)"
  by pat_completeness auto
termination
  by (relation "measure (\<lambda>(a, e). nat (1024 - e))") auto

function expo_down :: "rat \<Rightarrow> int \<Rightarrow> int" where
  "expo_down a e = (if a < 1 \<and> - 1022 < e then expo_down (a * 2) (e - 1) else e)"
  by pat_completeness auto
termination
  by (relation "measure (\<lambda>(a, e). nat (e + 1022))") auto

definition binade :: "rat \<Rightarrow> int" where
  "binade a = (if 1 \<le> a then expo_up a 0 else expo_down a 0)"

text \<open>Rounding a rational to the nearest integer, a tie going to the even one.\<close>

definition rne :: "rat \<Rightarrow> int" where
  "rne m = (let f = \<lfloor>m\<rfloor>; d = m - of_int f
            in if d < 1 / 2 then f
               else if 1 / 2 < d then f + 1
               else if even f then f else f + 1)"

text \<open>
  Rounding a magnitude to 53 significant bits: the unit in the last place of the binade
  of \<open>a\<close> is \<open>2^(e - 52)\<close>, and \<open>a\<close> goes to the nearest multiple of it.
\<close>

definition round_mag :: "rat \<Rightarrow> rat" where
  "round_mag a = (if a = 0 then 0
     else let u = pow2 (binade a - 52) in of_int (rne (a / u)) * u)"

text \<open>
  The binary64 value of the exact result \<open>q\<close> of an operation, whose sign is \<open>neg\<close>
  (the sign matters when the result is a zero): round to nearest, ties to even, overflow
  to an infinity.
\<close>

definition to_double :: "bool \<Rightarrow> rat \<Rightarrow> number" where
  "to_double neg q = (let r = round_mag \<bar>q\<bar>
     in if 2 ^ 1024 \<le> r then (if neg then NegInf else PosInf)
        else if r = 0 then (if neg then NegZero else Fin 0)
        else Fin (if neg then - r else r))"

fun val :: "number \<Rightarrow> rat" where
  "val (Fin q) = q"
| "val _ = 0"

fun signbit :: "number \<Rightarrow> bool" where
  "signbit (Fin q) = (q < 0)"
| "signbit NegZero = True"
| "signbit NegInf = True"
| "signbit _ = False"

definition is_inf :: "number \<Rightarrow> bool" where
  "is_inf x = (x = PosInf \<or> x = NegInf)"

fun fneg :: "number \<Rightarrow> number" where
  "fneg (Fin q) = (if q = 0 then NegZero else Fin (- q))"
| "fneg NegZero = Fin 0"
| "fneg PosInf = NegInf"
| "fneg NegInf = PosInf"
| "fneg NaN = NaN"

definition fadd :: "number \<Rightarrow> number \<Rightarrow> number" where
  "fadd x y =
     (if x = NaN \<or> y = NaN then NaN
      else if is_inf x then (if is_inf y \<and> y \<noteq> x then NaN else x)
      else if is_inf y then y
      else let q = val x + val y
           in to_double (if q = 0 then signbit x \<and> signbit y else q < 0) q)"

definition fsub :: "number \<Rightarrow> number \<Rightarrow> number" where
  "fsub x y = fadd x (fneg y)"

definition fmul :: "number \<Rightarrow> number \<Rightarrow> number" where
  "fmul x y =
     (if x = NaN \<or> y = NaN then NaN
      else if is_inf x \<or> is_inf y then
        (if (\<not> is_inf x \<and> val x = 0) \<or> (\<not> is_inf y \<and> val y = 0) then NaN
         else if signbit x \<noteq> signbit y then NegInf else PosInf)
      else to_double (signbit x \<noteq> signbit y) (val x * val y))"

definition fdiv :: "number \<Rightarrow> number \<Rightarrow> number" where
  "fdiv x y =
     (if x = NaN \<or> y = NaN then NaN
      else if is_inf x then
        (if is_inf y then NaN else if signbit x \<noteq> signbit y then NegInf else PosInf)
      else if is_inf y then (if signbit x \<noteq> signbit y then NegZero else Fin 0)
      else if val y = 0 then
        (if val x = 0 then NaN else if signbit x \<noteq> signbit y then NegInf else PosInf)
      else to_double (signbit x \<noteq> signbit y) (val x / val y))"

text \<open>
  The comparison \<^verbatim>\<open>x < y\<close>: false when an operand is NaN, and the two zeros are equal.
\<close>

fun rank :: "number \<Rightarrow> int" where
  "rank NegInf = - 1"
| "rank PosInf = 1"
| "rank _ = 0"

definition fless :: "number \<Rightarrow> number \<Rightarrow> bool" where
  "fless x y = (x \<noteq> NaN \<and> y \<noteq> NaN \<and>
     (rank x < rank y \<or> (rank x = rank y \<and> val x < val y)))"

definition fgt :: "number \<Rightarrow> number \<Rightarrow> bool" where
  "fgt x y = fless y x"

text \<open>
  \<^verbatim>\<open>Math.min\<close> and \<^verbatim>\<open>Math.max\<close> of two arguments: NaN when an argument is NaN, and
  \<open>-0\<close> counts as smaller than \<open>+0\<close>.
\<close>

definition math_min :: "number \<Rightarrow> number \<Rightarrow> number" where
  "math_min x y =
     (if x = NaN \<or> y = NaN then NaN
      else if fless y x then y
      else if fless x y then x
      else if signbit x then x else y)"

definition math_max :: "number \<Rightarrow> number \<Rightarrow> number" where
  "math_max x y =
     (if x = NaN \<or> y = NaN then NaN
      else if fless y x then x
      else if fless x y then y
      else if signbit x then y else x)"

text \<open>\<^verbatim>\<open>undefined\<close> used as a number is NaN.\<close>

fun ToNumber :: "number option \<Rightarrow> number" where
  "ToNumber None = NaN"
| "ToNumber (Some x) = x"

subsection \<open>\<^verbatim>\<open>Number.prototype.toFixed(0)\<close>\<close>

definition digit :: "nat \<Rightarrow> char" where
  "digit n = ''0123456789'' ! (n mod 10)"

fun digits :: "nat \<Rightarrow> string" where
  "digits n = (if n < 10 then [digit n] else digits (n div 10) @ [digit n])"

text \<open>
  \<^verbatim>\<open>toFixed(0)\<close> prints a value that is not finite by name. For a finite one it takes
  the integer nearest to the magnitude, the larger one at a tie, and prints its decimal
  digits after the sign. (From \<open>10^21\<close> on ECMAScript prints in exponent notation
  instead; \<^verbatim>\<open>update\<close> passes only NaN or a value between 0 and 100, see
  \<open>clamped_times_100\<close>, and these digits are given for the smaller magnitudes only.)
\<close>

definition toFixed0 :: "number \<Rightarrow> string" where
  "toFixed0 x = (case x of
       NaN \<Rightarrow> ''NaN''
     | PosInf \<Rightarrow> ''Infinity''
     | NegInf \<Rightarrow> ''-Infinity''
     | NegZero \<Rightarrow> ''0''
     | Fin q \<Rightarrow> (if q < 0 then ''-'' else '''') @ digits (nat \<lfloor>\<bar>q\<bar> + 1 / 2\<rfloor>))"

section \<open>The scroll highlighter\<close>

text \<open>
  An element is a handle of a node of the page. The geometry of the page, which
  \<^verbatim>\<open>reflow\<close> reads, is the height of the window and for every node its
  \<^verbatim>\<open>offsetTop\<close> and its \<^verbatim>\<open>offsetParent\<close> (\<open>None\<close> for \<^verbatim>\<open>null\<close>).
\<close>

type_synonym element = nat

record page =
  innerHeight :: number
  offsetTop :: "element \<Rightarrow> number"
  offsetParent :: "element \<Rightarrow> element option"

text \<open>
  The state that \<^verbatim>\<open>scrollHighlighter\<close> creates and its methods change: the array
  \<^verbatim>\<open>instance.elements\<close>, the WeakMap \<^verbatim>\<open>offsets\<close>, the property
  \<^verbatim>\<open>instance.windowHeight\<close> (undefined until the first \<^verbatim>\<open>reflow\<close>), and for every
  element the value of its style property \<^verbatim>\<open>--highlight-range\<close>.
\<close>

record state =
  elements :: "element list"
  offsets :: "element \<rightharpoonup> number"
  windowHeight :: "number option"
  style :: "element \<rightharpoonup> string"

definition START_OFFSET :: number where
  "START_OFFSET = to_double False (3 / 10)"

definition END_OFFSET :: number where
  "END_OFFSET = to_double False (7 / 10)"

subsection \<open>\<^verbatim>\<open>getPageOffsetTop\<close>\<close>

text \<open>
  The do-while loop follows \<^verbatim>\<open>offsetParent\<close> until it is null; on a chain that never
  ends it does not return, which is the value \<open>None\<close>.
\<close>

partial_function (option) offset_loop :: "page \<Rightarrow> number \<Rightarrow> element \<Rightarrow> number option" where
  "offset_loop d offset node =
     (case offsetParent d node of
        None \<Rightarrow> Some (fadd offset (offsetTop d node))
      | Some parent \<Rightarrow> offset_loop d (fadd offset (offsetTop d node)) parent)"

definition getPageOffsetTop :: "page \<Rightarrow> element \<Rightarrow> number option" where
  "getPageOffsetTop d el = offset_loop d (Fin 0) el"

subsection \<open>\<^verbatim>\<open>update\<close>\<close>

definition relPosition :: "number \<Rightarrow> number \<Rightarrow> number \<Rightarrow> number" where
  "relPosition scrollTop elOffset H = fsub (Fin 1) (fdiv (fsub elOffset scrollTop) H)"

definition startOffset :: "number \<Rightarrow> number" where
  "startOffset H = fmul H (fsub (Fin 1) START_OFFSET)"

definition startAt :: "number \<Rightarrow> number \<Rightarrow> number" where
  "startAt elOffset H =
     (if fgt (startOffset H) elOffset
      then math_min END_OFFSET (fsub (Fin 1) (fdiv elOffset H))
      else START_OFFSET)"

definition progress :: "number \<Rightarrow> number \<Rightarrow> number \<Rightarrow> number" where
  "progress scrollTop elOffset H =
     fdiv (fsub (relPosition scrollTop elOffset H) (startAt elOffset H))
          (fsub END_OFFSET (startAt elOffset H))"

definition clampedProgress :: "number \<Rightarrow> number \<Rightarrow> number \<Rightarrow> number" where
  "clampedProgress scrollTop elOffset H =
     math_min (Fin 1) (math_max (Fin 0) (progress scrollTop elOffset H))"

text \<open>The string that is written to \<^verbatim>\<open>--highlight-range\<close>.\<close>

definition highlight_range :: "number \<Rightarrow> number \<Rightarrow> number \<Rightarrow> string" where
  "highlight_range scrollTop elOffset H =
     toFixed0 (fmul (clampedProgress scrollTop elOffset H) (Fin 100)) @ ''%''"

text \<open>
  The callback of \<^verbatim>\<open>forEach\<close> in \<^verbatim>\<open>update\<close>. An element without a cache entry gives
  \<^verbatim>\<open>undefined\<close>, which the arithmetic reads as NaN.
\<close>

definition update_el :: "number \<Rightarrow> state \<Rightarrow> element \<Rightarrow> state" where
  "update_el scrollTop s el =
     s\<lparr>style := (style s)(el \<mapsto>
          highlight_range scrollTop (ToNumber (offsets s el)) (ToNumber (windowHeight s)))\<rparr>"

definition update :: "number \<Rightarrow> state \<Rightarrow> state" where
  "update scrollTop s = foldl (update_el scrollTop) s (elements s)"

subsection \<open>\<^verbatim>\<open>reflow\<close>, \<^verbatim>\<open>push\<close> and the constructor\<close>

fun reflow_each :: "page \<Rightarrow> element list \<Rightarrow> (element \<rightharpoonup> number) \<Rightarrow> (element \<rightharpoonup> number) option" where
  "reflow_each d [] offs = Some offs"
| "reflow_each d (el # els) offs =
     (case getPageOffsetTop d el of
        None \<Rightarrow> None
      | Some v \<Rightarrow> reflow_each d els (offs(el \<mapsto> v)))"

definition reflow :: "page \<Rightarrow> state \<Rightarrow> state option" where
  "reflow d s =
     (case reflow_each d (elements s) (offsets s) of
        None \<Rightarrow> None
      | Some offs \<Rightarrow> Some (s\<lparr>windowHeight := Some (innerHeight d), offsets := offs\<rparr>))"

text \<open>\<^verbatim>\<open>Array.prototype.push\<close>: the new array and the new length, which it returns.\<close>

definition array_push :: "'a list \<Rightarrow> 'a list \<Rightarrow> 'a list \<times> nat" where
  "array_push xs args = (xs @ args, length (xs @ args))"

text \<open>The replaced \<^verbatim>\<open>instance.elements.push\<close>: the result and the new state.\<close>

definition push :: "page \<Rightarrow> element list \<Rightarrow> state \<Rightarrow> (nat \<times> state) option" where
  "push d args s =
     (let (xs, result) = array_push (elements s) args
      in case reflow d (s\<lparr>elements := xs\<rparr>) of
           None \<Rightarrow> None
         | Some s' \<Rightarrow> Some (result, s'))"

definition scrollHighlighter :: "page \<Rightarrow> element list \<Rightarrow> (element \<rightharpoonup> string) \<Rightarrow> state option" where
  "scrollHighlighter d els st =
     (case reflow d \<lparr>elements = els, offsets = Map.empty, windowHeight = None, style = st\<rparr> of
        None \<Rightarrow> None
      | Some s \<Rightarrow> Some (update (Fin 0) s))"

section \<open>Notions of the specification\<close>

text \<open>
  The positioning contexts of an element: the element, its \<^verbatim>\<open>offsetParent\<close>, and so on
  up to the node that has none.
\<close>

inductive ancestors :: "page \<Rightarrow> element \<Rightarrow> element list \<Rightarrow> bool" where
  root: "offsetParent d el = None \<Longrightarrow> ancestors d el [el]"
| step: "offsetParent d el = Some p \<Longrightarrow> ancestors d p ns \<Longrightarrow> ancestors d el (el # ns)"

text \<open>The page-relative top of an element with the chain \<open>ns\<close>.\<close>

definition page_top :: "page \<Rightarrow> element list \<Rightarrow> number" where
  "page_top d ns = foldl fadd (Fin 0) (map (offsetTop d) ns)"

text \<open>
  A value of type \<open>number\<close> is a binary64 value when rounding leaves it as it is.
  Every finite binary64 value is a multiple of the smallest subnormal number \<open>2^-1074\<close>.
  The order \<open>x \<le> y\<close> is the one of two values that are not NaN.
\<close>

definition is_double :: "number \<Rightarrow> bool" where
  "is_double x = (case x of Fin q \<Rightarrow> to_double (q < 0) q = Fin q | _ \<Rightarrow> True)"

definition is_finite :: "number \<Rightarrow> bool" where
  "is_finite x = (case x of Fin q \<Rightarrow> True | NegZero \<Rightarrow> True | _ \<Rightarrow> False)"

definition on_grid :: "rat \<Rightarrow> bool" where
  "on_grid q = (\<exists>k::int. q = of_int k * pow2 (- 1074))"

definition nle :: "number \<Rightarrow> number \<Rightarrow> bool" where
  "nle x y = (x \<noteq> NaN \<and> y \<noteq> NaN \<and>
     (rank x < rank y \<or> (rank x = rank y \<and> val x \<le> val y)))"

text \<open>
  Two fixtures for the concrete cases: a tracker with the single element \<open>0\<close>, cached
  offset \<open>elOffset\<close> and cached window height \<open>H\<close>; and a page whose node \<open>0\<close> lies
  300 pixels below the top of its positioning context \<open>2\<close>, itself 700 pixels down the
  document, and whose node \<open>1\<close> lies 200 pixels down the document.
\<close>

definition one_element :: "number \<Rightarrow> number \<Rightarrow> state" where
  "one_element elOffset H =
     \<lparr>elements = [0], offsets = [0 \<mapsto> elOffset], windowHeight = Some H, style = Map.empty\<rparr>"

definition example_page :: page where
  "example_page =
     \<lparr>innerHeight = Fin 1000,
      offsetTop = (\<lambda>n. if n = 0 then Fin 300 else if n = 1 then Fin 200 else Fin 700),
      offsetParent = (\<lambda>n. if n = 0 then Some 2 else None)\<rparr>"

section \<open>Rounding\<close>

lemma floor_rat_numeral [simp]: "\<lfloor>numeral a / numeral b :: rat\<rfloor> = numeral a div numeral b"
  by (metis floor_divide_of_int_eq of_int_numeral)

lemmas num_defs = to_double_def round_mag_def binade_def rne_def pow2_def Let_def
  fadd_def fsub_def fmul_def fdiv_def is_inf_def fless_def fgt_def math_min_def math_max_def

lemmas num_eval = num_defs expo_up.simps expo_down.simps

declare expo_up.simps [simp del] expo_down.simps [simp del]

lemma pow2_powi: "pow2 e = 2 powi e"
  by (simp add: pow2_def power_int_def inverse_eq_divide power_one_over)

lemma pow2_pos [simp]: "0 < pow2 e"
  by (simp add: pow2_powi)

lemma pow2_add: "pow2 (a + b) = pow2 a * pow2 b"
  by (simp add: pow2_powi power_int_add)

lemma pow2_Suc: "pow2 (e + 1) = 2 * pow2 e"
  by (simp add: pow2_add) (simp add: pow2_def)

lemma pow2_mono: "a \<le> b \<Longrightarrow> pow2 a \<le> pow2 b"
  by (simp add: pow2_powi power_int_increasing)

lemma pow2_diff: "pow2 (a - b) = pow2 a / pow2 b"
  by (simp add: pow2_powi power_int_diff)

lemma pow2_numeral [simp]:
  "pow2 0 = 1" "pow2 1 = 2" "pow2 (numeral n) = 2 ^ numeral n"
  "pow2 (- numeral n) = 1 / 2 ^ numeral n"
  by (simp_all add: pow2_def)

lemma expo_up_spec:
  "1 \<le> a \<Longrightarrow> e \<le> 1024 \<Longrightarrow>
     e \<le> expo_up a e \<and> expo_up a e \<le> 1024 \<and>
     pow2 (expo_up a e - e) \<le> a \<and>
     (expo_up a e < 1024 \<longrightarrow> a < pow2 (expo_up a e - e + 1))"
proof (induction a e rule: expo_up.induct)
  case (1 a e)
  show ?case
  proof (cases "2 \<le> a \<and> e < 1024")
    case True
    then have eq: "expo_up a e = expo_up (a / 2) (e + 1)"
      by (subst expo_up.simps) simp
    from True 1 have ih: "e + 1 \<le> expo_up (a / 2) (e + 1) \<and> expo_up (a / 2) (e + 1) \<le> 1024 \<and>
       pow2 (expo_up (a / 2) (e + 1) - (e + 1)) \<le> a / 2 \<and>
       (expo_up (a / 2) (e + 1) < 1024 \<longrightarrow> a / 2 < pow2 (expo_up (a / 2) (e + 1) - (e + 1) + 1))"
      by simp
    define r where "r = expo_up (a / 2) (e + 1)"
    have p: "pow2 (r - e) = 2 * pow2 (r - (e + 1))" "pow2 (r - e + 1) = 2 * pow2 (r - (e + 1) + 1)"
      using pow2_Suc[of "r - (e + 1)"] pow2_Suc[of "r - (e + 1) + 1"]
      by (simp_all add: algebra_simps)
    from ih show ?thesis unfolding eq r_def[symmetric] p by auto
  next
    case False
    then have eq: "expo_up a e = e" by (subst expo_up.simps) auto
    from False 1 show ?thesis unfolding eq by auto
  qed
qed

lemma expo_down_spec:
  "0 < a \<Longrightarrow> a < 2 \<Longrightarrow> - 1022 \<le> e \<Longrightarrow>
     expo_down a e \<le> e \<and> - 1022 \<le> expo_down a e \<and>
     a < pow2 (expo_down a e - e + 1) \<and>
     (- 1022 < expo_down a e \<longrightarrow> pow2 (expo_down a e - e) \<le> a)"
proof (induction a e rule: expo_down.induct)
  case (1 a e)
  show ?case
  proof (cases "a < 1 \<and> - 1022 < e")
    case True
    then have eq: "expo_down a e = expo_down (a * 2) (e - 1)"
      by (subst expo_down.simps) simp
    from True 1 have ih: "expo_down (a * 2) (e - 1) \<le> e - 1 \<and> - 1022 \<le> expo_down (a * 2) (e - 1) \<and>
       a * 2 < pow2 (expo_down (a * 2) (e - 1) - (e - 1) + 1) \<and>
       (- 1022 < expo_down (a * 2) (e - 1) \<longrightarrow> pow2 (expo_down (a * 2) (e - 1) - (e - 1)) \<le> a * 2)"
      by simp
    define r where "r = expo_down (a * 2) (e - 1)"
    have p: "pow2 (r - (e - 1)) = 2 * pow2 (r - e)" "pow2 (r - (e - 1) + 1) = 2 * pow2 (r - e + 1)"
      using pow2_Suc[of "r - e"] pow2_Suc[of "r - e + 1"]
      by (simp_all add: algebra_simps)
    from ih show ?thesis unfolding eq r_def[symmetric] p by auto
  next
    case False
    then have eq: "expo_down a e = e" by (subst expo_down.simps) auto
    from False 1 show ?thesis unfolding eq by auto
  qed
qed

lemma binade_spec:
  assumes "0 < a"
  shows "- 1022 \<le> binade a" "binade a \<le> 1024"
    "binade a < 1024 \<Longrightarrow> a < pow2 (binade a + 1)"
    "- 1022 < binade a \<Longrightarrow> pow2 (binade a) \<le> a"
proof -
  have "- 1022 \<le> binade a \<and> binade a \<le> 1024 \<and>
    (binade a < 1024 \<longrightarrow> a < pow2 (binade a + 1)) \<and>
    (- 1022 < binade a \<longrightarrow> pow2 (binade a) \<le> a)"
  proof (cases "1 \<le> a")
    case True
    with expo_up_spec[of a 0] show ?thesis by (simp add: binade_def)
  next
    case False
    with assms expo_down_spec[of a 0] show ?thesis by (simp add: binade_def)
  qed
  then show "- 1022 \<le> binade a" "binade a \<le> 1024"
    "binade a < 1024 \<Longrightarrow> a < pow2 (binade a + 1)"
    "- 1022 < binade a \<Longrightarrow> pow2 (binade a) \<le> a" by simp_all
qed

lemma binade_mono:
  assumes "0 < a" "a \<le> b"
  shows "binade a \<le> binade b"
proof (rule ccontr)
  assume "\<not> binade a \<le> binade b"
  then have lt: "binade b < binade a" by simp
  from assms have b: "0 < b" by simp
  from lt binade_spec(1)[OF b] have "- 1022 < binade a" by simp
  from binade_spec(4)[OF assms(1) this] have 1: "pow2 (binade a) \<le> a" .
  from lt binade_spec(2)[OF assms(1)] have "binade b < 1024" by simp
  from binade_spec(3)[OF b this] have 2: "b < pow2 (binade b + 1)" .
  from lt have "pow2 (binade b + 1) \<le> pow2 (binade a)" by (intro pow2_mono) simp
  with 1 2 assms show False by simp
qed

lemma rne_bounds: "of_int (rne m) \<le> m + 1 / 2" "m - 1 / 2 \<le> of_int (rne m)"
  unfolding rne_def Let_def by (auto simp: not_less) linarith+

lemma rne_of_int [simp]: "rne (of_int n) = n"
  by (simp add: rne_def)

lemma rne_mono:
  assumes "x \<le> y"
  shows "rne x \<le> rne y"
proof -
  have fx: "of_int \<lfloor>x\<rfloor> \<le> x" "x < of_int \<lfloor>x\<rfloor> + 1" by linarith+
  have fy: "of_int \<lfloor>y\<rfloor> \<le> y" "y < of_int \<lfloor>y\<rfloor> + 1" by linarith+
  from assms have fl: "\<lfloor>x\<rfloor> \<le> \<lfloor>y\<rfloor>" by (rule floor_mono)
  show ?thesis
  proof (cases "\<lfloor>x\<rfloor> = \<lfloor>y\<rfloor>")
    case True
    with assms show ?thesis unfolding rne_def Let_def by (auto simp: not_less)
  next
    case False
    with fl have "\<lfloor>x\<rfloor> + 1 \<le> \<lfloor>y\<rfloor>" by simp
    moreover have "rne x \<le> \<lfloor>x\<rfloor> + 1" unfolding rne_def Let_def by auto
    moreover have "\<lfloor>y\<rfloor> \<le> rne y" unfolding rne_def Let_def by auto
    ultimately show ?thesis by linarith
  qed
qed

lemma rne_nonneg: "0 \<le> m \<Longrightarrow> 0 \<le> rne m"
  using rne_mono[of 0 m] rne_of_int[of 0] by simp

lemma round_mag_nonneg: "0 \<le> a \<Longrightarrow> 0 \<le> round_mag a"
  by (auto simp: round_mag_def Let_def intro!: mult_nonneg_nonneg rne_nonneg divide_nonneg_pos
      simp: less_imp_le)

lemma round_mag_mono:
  assumes "0 \<le> a" "a \<le> b"
  shows "round_mag a \<le> round_mag b"
proof (cases "a = 0")
  case True
  with assms round_mag_nonneg[of b] show ?thesis by (simp add: round_mag_def)
next
  case False
  with assms have a: "0 < a" and b: "0 < b" by simp_all
  define ea where "ea = binade a"
  define eb where "eb = binade b"
  have ra: "round_mag a = of_int (rne (a / pow2 (ea - 52))) * pow2 (ea - 52)"
    using a by (simp add: round_mag_def Let_def ea_def)
  have rb: "round_mag b = of_int (rne (b / pow2 (eb - 52))) * pow2 (eb - 52)"
    using b by (simp add: round_mag_def Let_def eb_def)
  have le: "ea \<le> eb" unfolding ea_def eb_def by (rule binade_mono[OF a assms(2)])
  show ?thesis
  proof (cases "ea = eb")
    case True
    have "a / pow2 (eb - 52) \<le> b / pow2 (eb - 52)"
      using assms(2) by (simp add: divide_right_mono less_imp_le)
    then have "rne (a / pow2 (eb - 52)) \<le> rne (b / pow2 (eb - 52))" by (rule rne_mono)
    then show ?thesis unfolding ra rb True
      by (intro mult_right_mono) (simp_all add: less_imp_le)
  next
    case False
    with le have lt: "ea < eb" by simp
    from lt binade_spec(2)[OF b] have "ea < 1024" by (simp add: eb_def)
    from binade_spec(3)[OF a this[unfolded ea_def]] have 1: "a < pow2 (ea + 1)" by (simp add: ea_def)
    have "pow2 (ea + 1) = of_int (2 ^ 53) * pow2 (ea - 52)"
      using pow2_add[of 53 "ea - 52"] by (simp add: add.commute)
    with 1 have "a / pow2 (ea - 52) \<le> of_int (2 ^ 53)"
      by (simp add: pos_divide_le_eq less_imp_le)
    then have "rne (a / pow2 (ea - 52)) \<le> 2 ^ 53"
      using rne_mono rne_of_int by metis
    then have "round_mag a \<le> of_int (2 ^ 53) * pow2 (ea - 52)"
      unfolding ra by (intro mult_right_mono) (simp_all add: less_imp_le)
    also have "\<dots> = pow2 (ea + 1)"
      using pow2_add[of 53 "ea - 52"] by (simp add: add.commute)
    also have "\<dots> \<le> pow2 eb" using lt by (intro pow2_mono) simp
    finally have up: "round_mag a \<le> pow2 eb" .
    from lt binade_spec(1)[OF a] have "- 1022 < eb" by (simp add: ea_def)
    from binade_spec(4)[OF b this[unfolded eb_def]] have 2: "pow2 eb \<le> b" by (simp add: eb_def)
    have e: "pow2 eb = of_int (2 ^ 52) * pow2 (eb - 52)"
      using pow2_add[of 52 "eb - 52"] by (simp add: add.commute)
    with 2 have "of_int (2 ^ 52) \<le> b / pow2 (eb - 52)"
      by (simp add: pos_le_divide_eq)
    then have "2 ^ 52 \<le> rne (b / pow2 (eb - 52))"
      using rne_mono rne_of_int by metis
    then have "of_int (2 ^ 52) * pow2 (eb - 52) \<le> round_mag b"
      unfolding rb by (intro mult_right_mono) (simp_all add: less_imp_le)
    with e have "pow2 eb \<le> round_mag b" by simp
    with up show ?thesis by simp
  qed
qed

text \<open>Every rounded magnitude is a multiple of the smallest subnormal number.\<close>

lemma round_mag_grid:
  assumes "0 \<le> a"
  shows "\<exists>k::int. 0 \<le> k \<and> round_mag a = of_int k * pow2 (- 1074)"
proof (cases "a = 0")
  case True
  then show ?thesis by (intro exI[of _ 0]) (simp add: round_mag_def)
next
  case False
  with assms have pos: "0 < a" by simp
  define e where "e = binade a"
  have e: "- 1022 \<le> e" unfolding e_def by (rule binade_spec(1)[OF pos])
  have ra: "round_mag a = of_int (rne (a / pow2 (e - 52))) * pow2 (e - 52)"
    using pos by (simp add: round_mag_def Let_def e_def)
  have "pow2 (e - 52) = pow2 (e + 1022) * pow2 (- 1074)"
    using pow2_add[of "e + 1022" "- 1074"] by simp
  also have "pow2 (e + 1022) = of_int (2 ^ nat (e + 1022))"
    using e by (simp add: pow2_def)
  finally have u: "pow2 (e - 52) = of_int (2 ^ nat (e + 1022)) * pow2 (- 1074)" .
  have n: "0 \<le> rne (a / pow2 (e - 52))"
    using pos by (intro rne_nonneg divide_nonneg_pos) (simp_all add: less_imp_le)
  show ?thesis
    by (rule exI[of _ "rne (a / pow2 (e - 52)) * 2 ^ nat (e + 1022)"])
       (use n in \<open>simp add: ra u\<close>)
qed

lemma round_mag_0 [simp]: "round_mag 0 = 0"
  by (simp add: round_mag_def)

lemma round_mag_pos:
  assumes "pow2 (- 1074) \<le> a"
  shows "pow2 (- 1074) \<le> round_mag a"
proof -
  have g: "0 < pow2 (- 1074)" by (rule pow2_pos)
  with assms have pos: "0 < a" by linarith
  define e where "e = binade a"
  have e: "- 1022 \<le> e" unfolding e_def by (rule binade_spec(1)[OF pos])
  have ra: "round_mag a = of_int (rne (a / pow2 (e - 52))) * pow2 (e - 52)"
    using pos by (simp add: round_mag_def Let_def e_def)
  have u: "pow2 (- 1074) \<le> pow2 (e - 52)" using e by (intro pow2_mono) simp
  have "pow2 (e - 52) \<le> a"
  proof (cases "e = - 1022")
    case True
    with assms show ?thesis by simp
  next
    case False
    with e have "- 1022 < binade a" by (simp add: e_def)
    from binade_spec(4)[OF pos this] have "pow2 e \<le> a" by (simp add: e_def)
    moreover have "pow2 (e - 52) \<le> pow2 e" by (intro pow2_mono) simp
    ultimately show ?thesis by simp
  qed
  then have "of_int 1 \<le> a / pow2 (e - 52)" by (simp add: pos_le_divide_eq)
  then have "1 \<le> rne (a / pow2 (e - 52))" using rne_mono rne_of_int by metis
  then have "of_int 1 * pow2 (e - 52) \<le> round_mag a"
    unfolding ra by (intro mult_right_mono) (simp_all add: less_imp_le)
  with u show ?thesis by simp
qed

lemma round_mag_1 [simp]: "round_mag 1 = 1"
  by (simp add: num_defs expo_up.simps expo_down.simps)

lemma round_mag_100 [simp]: "round_mag 100 = 100"
  by (simp add: num_defs expo_up.simps expo_down.simps)

lemma round_mag_le_1: "0 \<le> a \<Longrightarrow> a \<le> 1 \<Longrightarrow> round_mag a \<le> 1"
  using round_mag_mono[of a 1] by simp

lemma round_mag_ge_1: "1 \<le> a \<Longrightarrow> 1 \<le> round_mag a"
  using round_mag_mono[of 1 a] by simp

subsection \<open>Results of rounding\<close>

lemma to_double_not_NaN [simp]: "to_double n q \<noteq> NaN"
  by (simp add: to_double_def Let_def)

lemma rank_to_double:
  "rank (to_double n q) = (if 2 ^ 1024 \<le> round_mag \<bar>q\<bar> then (if n then - 1 else 1) else 0)"
  by (simp add: to_double_def Let_def)

lemma val_to_double:
  "val (to_double n q) =
     (if 2 ^ 1024 \<le> round_mag \<bar>q\<bar> then 0 else if n then - round_mag \<bar>q\<bar> else round_mag \<bar>q\<bar>)"
  by (simp add: to_double_def Let_def)

lemma to_double_mono:
  assumes le: "q1 \<le> q2"
    and s1: "q1 < 0 \<longrightarrow> n1" "0 < q1 \<longrightarrow> \<not> n1"
    and s2: "q2 < 0 \<longrightarrow> n2" "0 < q2 \<longrightarrow> \<not> n2"
  shows "nle (to_double n1 q1) (to_double n2 q2)"
proof -
  define r1 where "r1 = round_mag \<bar>q1\<bar>"
  define r2 where "r2 = round_mag \<bar>q2\<bar>"
  have p: "0 \<le> r1" "0 \<le> r2" unfolding r1_def r2_def by (simp_all add: round_mag_nonneg)
  have z: "q1 = 0 \<longrightarrow> r1 = 0" "q2 = 0 \<longrightarrow> r2 = 0" unfolding r1_def r2_def by simp_all
  have big: "(0::rat) < 2 ^ 1024" by simp
  have m: "0 \<le> q1 \<longrightarrow> r1 \<le> r2" "q2 \<le> 0 \<longrightarrow> r2 \<le> r1"
    unfolding r1_def r2_def using le by (auto intro!: round_mag_mono)
  consider "0 \<le> q1" | "q1 < 0" "0 \<le> q2" | "q2 < 0" using le by linarith
  then show ?thesis
  proof cases
    case 1
    with le have "0 \<le> q2" by simp
    with 1 s1 s2 m p z big show ?thesis
      unfolding nle_def rank_to_double val_to_double r1_def[symmetric] r2_def[symmetric]
      by (cases "q1 = 0"; cases "q2 = 0") (auto simp: not_le)
  next
    case 2
    with s1 s2 p z big show ?thesis
      unfolding nle_def rank_to_double val_to_double r1_def[symmetric] r2_def[symmetric]
      by (cases "q2 = 0") (auto simp: not_le)
  next
    case 3
    with le have "q1 < 0" by simp
    with 3 s1 s2 m p big show ?thesis
      unfolding nle_def rank_to_double val_to_double r1_def[symmetric] r2_def[symmetric]
      by (auto simp: not_le)
  qed
qed

lemma to_double_grid: "to_double n q = Fin v \<Longrightarrow> on_grid v"
proof -
  assume a: "to_double n q = Fin v"
  from round_mag_grid[of "\<bar>q\<bar>"] obtain k :: int where
    k: "round_mag \<bar>q\<bar> = of_int k * pow2 (- 1074)" by auto
  from a have "v = round_mag \<bar>q\<bar> \<or> v = - round_mag \<bar>q\<bar>"
    by (auto simp: to_double_def Let_def split: if_splits)
  then show "on_grid v"
  proof
    assume "v = round_mag \<bar>q\<bar>"
    with k show ?thesis unfolding on_grid_def by blast
  next
    assume "v = - round_mag \<bar>q\<bar>"
    with k have "v = of_int (- k) * pow2 (- 1074)" by simp
    then show ?thesis unfolding on_grid_def by blast
  qed
qed

lemma grid_gap:
  assumes "on_grid x" "on_grid y" "x < y"
  shows "pow2 (- 1074) \<le> y - x"
proof -
  from assms obtain k l :: int where
    k: "x = of_int k * pow2 (- 1074)" and l: "y = of_int l * pow2 (- 1074)"
    unfolding on_grid_def by blast
  have g: "0 < pow2 (- 1074)" by (rule pow2_pos)
  from assms(3) have "of_int k * pow2 (- 1074) < of_int l * pow2 (- 1074)" by (simp add: k l)
  with g have "(of_int k :: rat) < of_int l" by (simp add: mult_less_cancel_right)
  then have "k + 1 \<le> l" by simp
  then have "(of_int (k + 1) :: rat) \<le> of_int l" by (simp only: of_int_le_iff)
  then have "of_int (k + 1) * pow2 (- 1074) \<le> of_int l * pow2 (- 1074)"
    using g by (intro mult_right_mono) (simp_all add: less_imp_le)
  then show ?thesis unfolding k l by (simp add: algebra_simps)
qed

subsection \<open>The order and the operations\<close>

lemma is_finite_simps [simp]:
  "is_finite (Fin q)" "is_finite NegZero" "\<not> is_finite PosInf" "\<not> is_finite NegInf"
  "\<not> is_finite NaN"
  by (simp_all add: is_finite_def)

lemma is_finite_to_double: "is_finite (to_double n q) \<longleftrightarrow> round_mag \<bar>q\<bar> < 2 ^ 1024"
  by (simp add: to_double_def Let_def not_le)

lemma is_finite_rank: "is_finite x \<longleftrightarrow> x \<noteq> NaN \<and> rank x = 0"
  by (cases x) simp_all

lemma nle_refl: "x \<noteq> NaN \<Longrightarrow> nle x x"
  by (simp add: nle_def)

lemma nle_trans: "nle x y \<Longrightarrow> nle y z \<Longrightarrow> nle x z"
  unfolding nle_def by auto

lemma nle_NegInf: "x \<noteq> NaN \<Longrightarrow> nle NegInf x"
  by (cases x) (simp_all add: nle_def)

lemma nle_PosInf: "x \<noteq> NaN \<Longrightarrow> nle x PosInf"
  by (cases x) (simp_all add: nle_def)

lemma nle_finite: "is_finite x \<Longrightarrow> is_finite y \<Longrightarrow> nle x y \<longleftrightarrow> val x \<le> val y"
  by (auto simp: nle_def is_finite_rank)

lemma nle_not_NaN: "nle x y \<Longrightarrow> x \<noteq> NaN \<and> y \<noteq> NaN"
  by (simp add: nle_def)

lemma nle_split:
  assumes "nle x y"
  obtains "x = NegInf" "y \<noteq> NaN" | "y = PosInf" "x \<noteq> NaN"
  | "is_finite x" "is_finite y" "val x \<le> val y"
  using assms by (cases x; cases y) (auto simp: nle_def)

lemma fless_iff: "fless x y \<longleftrightarrow> nle x y \<and> \<not> nle y x"
  unfolding fless_def nle_def by auto

lemma fneg_simps [simp]:
  "val (fneg x) = - val x" "rank (fneg x) = - rank x" "(fneg x = NaN) = (x = NaN)"
  "is_finite (fneg x) = is_finite x"
  by (cases x; simp)+

lemma nle_fneg: "nle x y \<Longrightarrow> nle (fneg y) (fneg x)"
  unfolding nle_def by auto

lemma fadd_finite:
  assumes "is_finite x" "is_finite y"
  shows "fadd x y = to_double (if val x + val y = 0 then signbit x \<and> signbit y
           else val x + val y < 0) (val x + val y)"
  using assms by (cases x; cases y) (simp_all add: fadd_def is_inf_def Let_def)

lemma fadd_inf_left:
  "is_finite y \<Longrightarrow> fadd PosInf y = PosInf" "is_finite y \<Longrightarrow> fadd NegInf y = NegInf"
  by (cases y; simp add: fadd_def is_inf_def)+

lemma fadd_commute: "fadd x y = fadd y x"
  by (cases x; cases y) (simp_all add: fadd_def is_inf_def Let_def add.commute conj_commute)

lemma fadd_not_NaN: "x \<noteq> NaN \<Longrightarrow> is_finite y \<Longrightarrow> fadd x y \<noteq> NaN"
  by (cases x; cases y) (simp_all add: fadd_def is_inf_def Let_def)

lemma fadd_mono_left:
  assumes "nle x x'" "is_finite y"
  shows "nle (fadd x y) (fadd x' y)"
  using assms(1)
proof (cases rule: nle_split)
  case 1
  with assms(2) show ?thesis by (simp add: fadd_inf_left nle_NegInf fadd_not_NaN)
next
  case 2
  with assms(2) show ?thesis by (simp add: fadd_inf_left nle_PosInf fadd_not_NaN)
next
  case 3
  show ?thesis
    unfolding fadd_finite[OF 3(1) assms(2)] fadd_finite[OF 3(2) assms(2)]
    by (rule to_double_mono) (use 3(3) in auto)
qed

lemma fadd_mono_right: "nle y y' \<Longrightarrow> is_finite x \<Longrightarrow> nle (fadd x y) (fadd x y')"
  using fadd_mono_left[of y y' x] by (simp add: fadd_commute)

lemma fsub_mono_left: "nle x x' \<Longrightarrow> is_finite y \<Longrightarrow> nle (fsub x y) (fsub x' y)"
  unfolding fsub_def by (rule fadd_mono_left) simp_all

lemma fsub_anti_right: "nle y y' \<Longrightarrow> is_finite x \<Longrightarrow> nle (fsub x y') (fsub x y)"
  unfolding fsub_def by (rule fadd_mono_right) (simp_all add: nle_fneg)

lemma fsub_finite:
  assumes "is_finite x" "is_finite y"
  shows "fsub x y = to_double (if val x - val y = 0 then signbit x \<and> signbit (fneg y)
           else val x - val y < 0) (val x - val y)"
  unfolding fsub_def using fadd_finite[of x "fneg y"] assms by simp

lemma fsub_self: "is_finite x \<Longrightarrow> fsub x x = Fin 0"
  by (cases x) (simp_all add: fsub_finite to_double_def)

lemma fdiv_pos:
  assumes "0 < h" "x \<noteq> NaN"
  shows "fdiv x (Fin h) = (if x = PosInf then PosInf else if x = NegInf then NegInf
           else to_double (signbit x) (val x / h))"
  using assms by (cases x) (simp_all add: fdiv_def is_inf_def)

lemma signbit_val: "is_finite x \<Longrightarrow> (val x < 0 \<longrightarrow> signbit x) \<and> (0 < val x \<longrightarrow> \<not> signbit x)"
  by (cases x) simp_all

lemma fdiv_mono:
  assumes "nle x x'" "0 < h"
  shows "nle (fdiv x (Fin h)) (fdiv x' (Fin h))"
  using assms(1)
proof (cases rule: nle_split)
  case 1
  with assms(2) show ?thesis by (auto simp: fdiv_pos intro!: nle_NegInf)
next
  case 2
  with assms(2) show ?thesis by (auto simp: fdiv_pos intro!: nle_PosInf)
next
  case 3
  then have n: "x \<noteq> NaN" "x' \<noteq> NaN" "x \<noteq> PosInf" "x \<noteq> NegInf" "x' \<noteq> PosInf" "x' \<noteq> NegInf"
    by auto
  show ?thesis
    unfolding fdiv_pos[OF assms(2) n(1)] fdiv_pos[OF assms(2) n(2)]
  proof -
    have "val x / h \<le> val x' / h" using 3(3) assms(2) by (simp add: divide_right_mono)
    moreover have "val x / h < 0 \<longrightarrow> signbit x" "0 < val x / h \<longrightarrow> \<not> signbit x"
      using signbit_val[OF 3(1)] assms(2) by (simp_all add: divide_less_0_iff zero_less_divide_iff)
    moreover have "val x' / h < 0 \<longrightarrow> signbit x'" "0 < val x' / h \<longrightarrow> \<not> signbit x'"
      using signbit_val[OF 3(2)] assms(2) by (simp_all add: divide_less_0_iff zero_less_divide_iff)
    ultimately show "nle (if x = PosInf then PosInf else if x = NegInf then NegInf
           else to_double (signbit x) (val x / h))
        (if x' = PosInf then PosInf else if x' = NegInf then NegInf
           else to_double (signbit x') (val x' / h))"
      using n by (simp add: to_double_mono)
  qed
qed

subsection \<open>The clamp\<close>

lemma math_max_0:
  "p \<noteq> NaN \<Longrightarrow> math_max (Fin 0) p = (if fless (Fin 0) p then p else Fin 0)"
  by (cases p) (auto simp: math_max_def fless_def)

lemma math_min_1:
  "p \<noteq> NaN \<Longrightarrow> math_min (Fin 1) p = (if fless p (Fin 1) then p else Fin 1)"
  by (cases p) (auto simp: math_min_def fless_def)

lemma clamp_value:
  assumes "p \<noteq> NaN"
  shows "math_min (Fin 1) (math_max (Fin 0) p) =
     (if fless (Fin 0) p then (if fless p (Fin 1) then p else Fin 1) else Fin 0)"
  using assms by (cases p) (auto simp: math_max_def math_min_def fless_def)

lemma clamp_NaN: "math_min (Fin 1) (math_max (Fin 0) NaN) = NaN"
  by (simp add: math_max_def math_min_def)

lemma clamp_range:
  assumes "p \<noteq> NaN"
  shows "\<exists>q. math_min (Fin 1) (math_max (Fin 0) p) = Fin q \<and> 0 \<le> q \<and> q \<le> 1"
  using assms by (cases p) (auto simp: clamp_value fless_def)

lemma clamp_mono:
  assumes "nle p p'"
  shows "nle (math_min (Fin 1) (math_max (Fin 0) p)) (math_min (Fin 1) (math_max (Fin 0) p'))"
proof -
  from assms have n: "p \<noteq> NaN" "p' \<noteq> NaN" by (simp_all add: nle_def)
  from assms show ?thesis
    unfolding clamp_value[OF n(1)] clamp_value[OF n(2)]
    by (cases p; cases p') (auto simp: nle_def fless_def)
qed

lemma clamp_ge_1: "nle (Fin 1) p \<Longrightarrow> math_min (Fin 1) (math_max (Fin 0) p) = Fin 1"
  by (cases p) (auto simp: clamp_value nle_def fless_def)

lemma clamp_PosInf: "math_min (Fin 1) (math_max (Fin 0) PosInf) = Fin 1"
  by (simp add: clamp_value fless_def)

lemma clamp_NegInf: "math_min (Fin 1) (math_max (Fin 0) NegInf) = Fin 0"
  by (simp add: clamp_value fless_def)

subsection \<open>The percentage\<close>

lemma times_100:
  assumes "0 \<le> q" "q \<le> 1"
  shows "\<exists>v. fmul (Fin q) (Fin 100) = Fin v \<and> 0 \<le> v \<and> v \<le> 100 \<and> v = round_mag (q * 100)"
proof -
  have r: "round_mag (q * 100) \<le> 100"
    using round_mag_mono[of "q * 100" 100] assms by simp
  have p: "0 \<le> round_mag (q * 100)" using assms by (intro round_mag_nonneg) simp
  have a: "\<bar>q * 100\<bar> = q * 100" using assms by simp
  from r have "\<not> 2 ^ 1024 \<le> round_mag (q * 100)" by simp
  with assms r p show ?thesis
    by (auto simp add: fmul_def is_inf_def to_double_def Let_def a not_less)
qed

lemma toFixed0_nonneg: "0 \<le> v \<Longrightarrow> toFixed0 (Fin v) = digits (nat \<lfloor>v + 1 / 2\<rfloor>)"
  by (simp add: toFixed0_def)

lemma percent_le_100: "0 \<le> (v::rat) \<Longrightarrow> v \<le> 100 \<Longrightarrow> nat \<lfloor>v + 1 / 2\<rfloor> \<le> 100"
proof -
  assume "0 \<le> v" "v \<le> 100"
  then have "v + 1 / 2 < of_int 101" by simp
  then have "\<lfloor>v + 1 / 2\<rfloor> < 101" by (simp only: floor_less_iff)
  then show ?thesis by linarith
qed

text \<open>What \<^verbatim>\<open>toFixed\<close> receives: NaN or a value between 0 and 100.\<close>

lemma clamped_times_100:
  "fmul (clampedProgress scrollTop elOffset H) (Fin 100) = NaN \<or>
   (\<exists>v. fmul (clampedProgress scrollTop elOffset H) (Fin 100) = Fin v \<and> 0 \<le> v \<and> v \<le> 100)"
proof (cases "progress scrollTop elOffset H = NaN")
  case True
  then show ?thesis by (simp add: clampedProgress_def clamp_NaN fmul_def)
next
  case False
  from clamp_range[OF False] obtain q where
    "clampedProgress scrollTop elOffset H = Fin q" "0 \<le> q" "q \<le> 1"
    unfolding clampedProgress_def by blast
  with times_100[of q] show ?thesis by auto
qed

section \<open>Evaluating the arithmetic\<close>

lemma START_OFFSET_value: "START_OFFSET = Fin (5404319552844595 / 2 ^ 54)"
  unfolding START_OFFSET_def by (simp add: num_eval)

lemma END_OFFSET_value: "END_OFFSET = Fin (3152519739159347 / 2 ^ 52)"
  unfolding END_OFFSET_def by (simp add: num_eval)

lemma one_minus_start: "fsub (Fin 1) START_OFFSET = END_OFFSET"
  by (simp add: END_OFFSET_value START_OFFSET_value num_eval)

lemma end_minus_start: "fsub END_OFFSET START_OFFSET = Fin (7205759403792793 / 2 ^ 54)"
  by (simp add: END_OFFSET_value START_OFFSET_value num_eval)

lemma end_minus_end: "fsub END_OFFSET END_OFFSET = Fin 0"
  by (simp add: END_OFFSET_value num_eval)

lemma startOffset_1000: "startOffset (Fin 1000) = Fin 700"
  by (simp add: startOffset_def one_minus_start) (simp add: END_OFFSET_value num_eval)

lemma startAt_1000_1000: "startAt (Fin 1000) (Fin 1000) = START_OFFSET"
  by (simp add: startAt_def startOffset_1000) (simp add: fgt_def fless_def)

lemma relPosition_0_1000_1000: "relPosition (Fin 0) (Fin 1000) (Fin 1000) = Fin 0"
  by (simp add: relPosition_def num_eval)

lemma relPosition_650_1000_1000:
  "relPosition (Fin 650) (Fin 1000) (Fin 1000) = Fin (5854679515581645 / 2 ^ 53)"
  by (simp add: relPosition_def num_eval)

lemma progress_0_1000_1000: "progress (Fin 0) (Fin 1000) (Fin 1000) = Fin (- 3 / 4)"
  by (simp add: progress_def startAt_1000_1000 relPosition_0_1000_1000 end_minus_start)
     (simp add: START_OFFSET_value num_eval)

lemma progress_650_1000_1000:
  "progress (Fin 650) (Fin 1000) (Fin 1000) = Fin (7881299347898369 / 2 ^ 53)"
  by (simp add: progress_def startAt_1000_1000 relPosition_650_1000_1000 end_minus_start)
     (simp add: START_OFFSET_value num_eval)

lemma digits_small: "digits 0 = ''0''" "digits 88 = ''88''" "digits 100 = ''100''"
  by (simp_all add: digit_def)

lemma highlight_0_1000_1000: "highlight_range (Fin 0) (Fin 1000) (Fin 1000) = ''0%''"
  by (simp add: highlight_range_def clampedProgress_def progress_0_1000_1000)
     (simp add: num_eval toFixed0_def digit_def)

lemma highlight_650_1000_1000: "highlight_range (Fin 650) (Fin 1000) (Fin 1000) = ''88%''"
  by (simp add: highlight_range_def clampedProgress_def progress_650_1000_1000)
     (simp add: num_eval toFixed0_def digit_def)

section \<open>The computation of \<^verbatim>\<open>update\<close>\<close>

subsection \<open>The thresholds\<close>

lemma END_OFFSET_facts:
  "is_finite END_OFFSET" "0 < val END_OFFSET" "val END_OFFSET < 1" "\<not> signbit END_OFFSET"
  "on_grid (val END_OFFSET)"
proof -
  show "is_finite END_OFFSET" "0 < val END_OFFSET" "val END_OFFSET < 1" "\<not> signbit END_OFFSET"
    by (simp_all add: END_OFFSET_value)
  have "to_double False (7 / 10) = Fin (val END_OFFSET)"
    using END_OFFSET_value by (simp add: END_OFFSET_def)
  then show "on_grid (val END_OFFSET)" by (rule to_double_grid)
qed

lemma START_OFFSET_facts:
  "is_finite START_OFFSET" "0 < val START_OFFSET" "val START_OFFSET < val END_OFFSET"
  "on_grid (val START_OFFSET)"
proof -
  show "is_finite START_OFFSET" "0 < val START_OFFSET" "val START_OFFSET < val END_OFFSET"
    by (simp_all add: START_OFFSET_value END_OFFSET_value)
  have "to_double False (3 / 10) = Fin (val START_OFFSET)"
    using START_OFFSET_value by (simp add: START_OFFSET_def)
  then show "on_grid (val START_OFFSET)" by (rule to_double_grid)
qed

lemma on_grid_0 [simp]: "on_grid 0"
  unfolding on_grid_def by (rule exI[of _ 0]) simp

lemma on_grid_to_double: "is_finite (to_double n q) \<Longrightarrow> on_grid (val (to_double n q))"
  by (cases "to_double n q") (auto dest: to_double_grid)

lemma on_grid_fadd: "is_finite (fadd x y) \<Longrightarrow> on_grid (val (fadd x y))"
  by (cases x; cases y) (auto simp: fadd_def is_inf_def Let_def intro: on_grid_to_double)

lemma on_grid_fsub: "is_finite (fsub x y) \<Longrightarrow> on_grid (val (fsub x y))"
  unfolding fsub_def by (rule on_grid_fadd)

lemma to_double_False:
  assumes "0 \<le> q" "round_mag q < 2 ^ 1024"
  shows "to_double False q = Fin (round_mag q)"
proof -
  from assms(1) have "\<bar>q\<bar> = q" by simp
  with assms(2) show ?thesis by (simp add: to_double_def Let_def not_le)
qed

lemma to_double_pos:
  assumes "pow2 (- 1074) \<le> q" "round_mag q < 2 ^ 1024"
  shows "to_double False q = Fin (round_mag q)" "0 < round_mag q"
proof -
  have g: "0 < pow2 (- 1074)" by (rule pow2_pos)
  with round_mag_pos[OF assms(1)] show p: "0 < round_mag q" by linarith
  from g assms(1) have "\<bar>q\<bar> = q" by simp
  with p assms(2) show "to_double False q = Fin (round_mag q)"
    by (simp add: to_double_def Let_def not_le)
qed

text \<open>A subtraction of two different binary64 values does not round to zero.\<close>

lemma fsub_pos:
  assumes "is_finite x" "is_finite y" "on_grid (val x)" "on_grid (val y)" "val y < val x"
  shows "fsub x y = PosInf \<or> (\<exists>w. fsub x y = Fin w \<and> 0 < w)"
proof -
  from grid_gap[OF assms(4,3,5)] have g: "pow2 (- 1074) \<le> val x - val y" .
  have e: "fsub x y = to_double False (val x - val y)"
    using assms(5) by (simp add: fsub_finite[OF assms(1,2)])
  show ?thesis
  proof (cases "round_mag (val x - val y) < 2 ^ 1024")
    case True
    from to_double_pos[OF g True] e show ?thesis by simp
  next
    case False
    with assms(5) e show ?thesis by (simp add: to_double_def Let_def not_less)
  qed
qed

lemma fsub_neg:
  assumes "is_finite x" "is_finite y" "on_grid (val x)" "on_grid (val y)" "val x < val y"
  shows "fsub x y = NegInf \<or> (\<exists>w. fsub x y = Fin w \<and> w < 0)"
proof -
  from grid_gap[OF assms(3,4,5)] have g: "pow2 (- 1074) \<le> val y - val x" .
  have p: "0 < pow2 (- 1074)" by (rule pow2_pos)
  have e: "fsub x y = to_double True (val x - val y)"
    using assms(5) by (simp add: fsub_finite[OF assms(1,2)])
  have a: "\<bar>val x - val y\<bar> = val y - val x" using assms(5) by simp
  from round_mag_pos[OF g] p have "0 < round_mag (val y - val x)" by linarith
  then show ?thesis unfolding e by (simp add: to_double_def Let_def a)
qed

subsection \<open>The start threshold\<close>

lemma is_double_pos:
  assumes "is_double (Fin h)" "0 < h"
  shows "round_mag h = h" "h < 2 ^ 1024"
proof -
  from assms have t: "to_double False h = Fin h" by (simp add: is_double_def)
  from assms(2) have a: "\<bar>h\<bar> = h" by simp
  from t show "round_mag h = h"
    unfolding to_double_def Let_def a using assms(2) by (auto split: if_splits)
  with t show "h < 2 ^ 1024"
    unfolding to_double_def Let_def a by (auto split: if_splits)
qed

lemma startOffset_bound:
  assumes H: "is_double (Fin h)" "0 < h"
    and O: "is_finite elOffset" "fgt (startOffset (Fin h)) elOffset"
  shows "val elOffset < h"
proof -
  have e: "fsub (Fin 1) START_OFFSET = END_OFFSET" by (rule one_minus_start)
  define c where "c = val END_OFFSET"
  have c: "0 < c" "c < 1" unfolding c_def by (rule END_OFFSET_facts)+
  have fin: "END_OFFSET \<noteq> NaN" "\<not> is_inf END_OFFSET"
    using END_OFFSET_facts(1) by (auto simp: is_inf_def)
  have so: "startOffset (Fin h) = to_double False (h * c)"
    using fin END_OFFSET_facts(4) H(2)
    by (simp add: startOffset_def e fmul_def is_inf_def c_def)
  have "h * c \<le> h" using c H(2) by simp
  then have "round_mag (h * c) \<le> round_mag h"
    using c H(2) by (intro round_mag_mono) simp_all
  with is_double_pos[OF H] have r: "round_mag (h * c) \<le> h" "round_mag (h * c) < 2 ^ 1024"
    by simp_all
  have a: "\<bar>h * c\<bar> = h * c" using c H(2) by simp
  from r have v: "val (startOffset (Fin h)) \<le> h" "rank (startOffset (Fin h)) = 0"
    unfolding so by (simp_all add: val_to_double rank_to_double a)
  from O(1) have "rank elOffset = 0" by (simp add: is_finite_rank)
  with O(2) v show ?thesis by (simp add: fgt_def fless_def)
qed

lemma fdiv_zero: "0 < h \<Longrightarrow> fdiv (Fin 0) (Fin h) = Fin 0"
  by (simp add: fdiv_pos to_double_def)

lemma one_minus_zero: "fsub (Fin 1) (Fin 0) = Fin 1"
  by (simp add: fsub_finite to_double_def)

lemma one_minus_ratio_ge_1:
  assumes "0 < h" "is_finite elOffset" "val elOffset \<le> 0"
  shows "nle (Fin 1) (fsub (Fin 1) (fdiv elOffset (Fin h)))"
proof -
  from assms have "nle elOffset (Fin 0)" by (simp add: nle_finite)
  from fdiv_mono[OF this assms(1)] have "nle (fdiv elOffset (Fin h)) (Fin 0)"
    by (simp add: fdiv_zero assms(1))
  from fsub_anti_right[OF this, of "Fin 1"] show ?thesis by (simp add: one_minus_zero)
qed

lemma not_fless_END: "nle (Fin 1) r \<Longrightarrow> \<not> fless r END_OFFSET"
proof
  assume a: "nle (Fin 1) r" and b: "fless r END_OFFSET"
  from b have "nle r END_OFFSET" by (simp add: fless_iff)
  from nle_trans[OF a this] have "1 \<le> val END_OFFSET"
    using END_OFFSET_facts(1) by (simp add: nle_finite)
  with END_OFFSET_facts(3) show False by simp
qed

text \<open>
  When the adjustment applies and gives a value below the end threshold, that value is
  a finite binary64 number between 0 and the end threshold.
\<close>

lemma adjusted_start:
  assumes H: "is_double (Fin h)" "0 < h"
    and O: "is_finite elOffset" "fgt (startOffset (Fin h)) elOffset"
    and r: "fless (fsub (Fin 1) (fdiv elOffset (Fin h))) END_OFFSET"
  shows "is_finite (fsub (Fin 1) (fdiv elOffset (Fin h)))"
    and "0 \<le> val (fsub (Fin 1) (fdiv elOffset (Fin h)))"
    and "val (fsub (Fin 1) (fdiv elOffset (Fin h))) < val END_OFFSET"
    and "on_grid (val (fsub (Fin 1) (fdiv elOffset (Fin h))))"
proof -
  define ov where "ov = val elOffset"
  have pos: "0 < ov"
  proof (rule ccontr)
    assume "\<not> 0 < ov"
    then have "val elOffset \<le> 0" by (simp add: ov_def)
    from one_minus_ratio_ge_1[OF H(2) O(1) this] r not_fless_END show False by blast
  qed
  have lt: "ov < h" unfolding ov_def by (rule startOffset_bound[OF H O])
  have n: "elOffset \<noteq> NaN" "elOffset \<noteq> PosInf" "elOffset \<noteq> NegInf" "\<not> signbit elOffset"
    using O(1) pos signbit_val[OF O(1)] by (auto simp: ov_def)
  define x where "x = round_mag (ov / h)"
  have x: "0 \<le> x" "x \<le> 1"
    unfolding x_def using pos lt H(2)
    by (auto intro!: round_mag_nonneg round_mag_le_1 simp: less_imp_le)
  have "to_double False (ov / h) = Fin (round_mag (ov / h))"
    using pos H(2) x by (intro to_double_False) (simp_all add: x_def)
  then have d: "fdiv elOffset (Fin h) = Fin x"
    using n by (simp add: fdiv_pos[OF H(2) n(1)] ov_def[symmetric] x_def[symmetric])
  have m: "0 \<le> round_mag (1 - x)" "round_mag (1 - x) \<le> 1"
    using x by (auto intro!: round_mag_nonneg round_mag_le_1)
  have "to_double False (1 - x) = Fin (round_mag (1 - x))"
    using x m by (intro to_double_False) simp_all
  moreover have "fsub (Fin 1) (Fin x) = to_double False (1 - x)"
    using x by (simp add: fsub_finite)
  ultimately have e: "fsub (Fin 1) (fdiv elOffset (Fin h)) = Fin (round_mag (1 - x))"
    by (simp add: d)
  show "is_finite (fsub (Fin 1) (fdiv elOffset (Fin h)))" by (simp add: e)
  then show "on_grid (val (fsub (Fin 1) (fdiv elOffset (Fin h))))" by (rule on_grid_fsub)
  show "0 \<le> val (fsub (Fin 1) (fdiv elOffset (Fin h)))" using m by (simp add: e)
  from r show "val (fsub (Fin 1) (fdiv elOffset (Fin h))) < val END_OFFSET"
    using END_OFFSET_facts(1) by (auto simp: e fless_def is_finite_rank)
qed

lemma math_min_END:
  assumes "fless (math_min END_OFFSET r) END_OFFSET"
  shows "math_min END_OFFSET r = r" "fless r END_OFFSET"
proof -
  from assms have n: "r \<noteq> NaN" by (auto simp: math_min_def fless_def)
  from assms END_OFFSET_facts(4) show "math_min END_OFFSET r = r"
    by (auto simp: math_min_def fless_def split: if_splits)
  with assms show "fless r END_OFFSET" by simp
qed

lemma startAt_below_END:
  assumes H: "is_double (Fin h)" "0 < h"
    and O: "is_finite elOffset"
    and S: "fless (startAt elOffset (Fin h)) END_OFFSET"
  shows "is_finite (startAt elOffset (Fin h))"
    and "0 \<le> val (startAt elOffset (Fin h))"
    and "val (startAt elOffset (Fin h)) < val END_OFFSET"
    and "on_grid (val (startAt elOffset (Fin h)))"
proof -
  have "is_finite (startAt elOffset (Fin h)) \<and> 0 \<le> val (startAt elOffset (Fin h)) \<and>
    val (startAt elOffset (Fin h)) < val END_OFFSET \<and> on_grid (val (startAt elOffset (Fin h)))"
  proof (cases "fgt (startOffset (Fin h)) elOffset")
    case True
    then have eq: "startAt elOffset (Fin h) = math_min END_OFFSET (fsub (Fin 1) (fdiv elOffset (Fin h)))"
      by (simp add: startAt_def)
    from S have m: "math_min END_OFFSET (fsub (Fin 1) (fdiv elOffset (Fin h))) =
        fsub (Fin 1) (fdiv elOffset (Fin h))"
      and l: "fless (fsub (Fin 1) (fdiv elOffset (Fin h))) END_OFFSET"
      unfolding eq by (rule math_min_END)+
    from adjusted_start[OF H O True l] show ?thesis unfolding eq m by simp
  next
    case False
    then have "startAt elOffset (Fin h) = START_OFFSET" by (simp add: startAt_def)
    with START_OFFSET_facts show ?thesis by (simp add: less_imp_le)
  qed
  then show "is_finite (startAt elOffset (Fin h))"
    and "0 \<le> val (startAt elOffset (Fin h))"
    and "val (startAt elOffset (Fin h)) < val END_OFFSET"
    and "on_grid (val (startAt elOffset (Fin h)))" by simp_all
qed

text \<open>Below the end threshold the denominator of the progress is positive and finite.\<close>

lemma denominator_pos:
  assumes "is_finite S" "0 \<le> val S" "val S < val END_OFFSET" "on_grid (val S)"
  shows "\<exists>dq. fsub END_OFFSET S = Fin dq \<and> 0 < dq"
proof -
  from grid_gap[OF assms(4) END_OFFSET_facts(5) assms(3)]
  have g: "pow2 (- 1074) \<le> val END_OFFSET - val S" .
  have "val END_OFFSET - val S \<le> 1" using assms(2) END_OFFSET_facts(3) by simp
  moreover have "0 \<le> val END_OFFSET - val S" using assms(3) by simp
  ultimately have "round_mag (val END_OFFSET - val S) \<le> 1" by (rule round_mag_le_1[rotated])
  then have b: "round_mag (val END_OFFSET - val S) < 2 ^ 1024" by simp
  have e: "fsub END_OFFSET S = to_double False (val END_OFFSET - val S)"
    using assms(3) by (simp add: fsub_finite[OF END_OFFSET_facts(1) assms(1)])
  from to_double_pos[OF g b] e show ?thesis by simp
qed

subsection \<open>From the clamped progress to the string\<close>

lemma highlight_of_clamped:
  assumes "clampedProgress scrollTop elOffset H = Fin q" "0 \<le> q" "q \<le> 1"
  shows "highlight_range scrollTop elOffset H =
     digits (nat \<lfloor>round_mag (q * 100) + 1 / 2\<rfloor>) @ ''%''"
proof -
  from times_100[OF assms(2,3)] obtain v where
    v: "fmul (Fin q) (Fin 100) = Fin v" "0 \<le> v" "v = round_mag (q * 100)" by blast
  then show ?thesis by (simp add: highlight_range_def assms(1) toFixed0_nonneg)
qed

lemma highlight_100:
  "clampedProgress scrollTop elOffset H = Fin 1 \<Longrightarrow> highlight_range scrollTop elOffset H = ''100%''"
  using highlight_of_clamped[of scrollTop elOffset H 1] by (simp add: digit_def)

lemma highlight_0:
  "clampedProgress scrollTop elOffset H = Fin 0 \<Longrightarrow> highlight_range scrollTop elOffset H = ''0%''"
  using highlight_of_clamped[of scrollTop elOffset H 0] by (simp add: digit_def)

lemma highlight_NaN:
  "progress scrollTop elOffset H = NaN \<Longrightarrow> highlight_range scrollTop elOffset H = ''NaN%''"
  by (simp add: highlight_range_def clampedProgress_def clamp_NaN fmul_def toFixed0_def)

subsection \<open>Monotonicity in the scroll position\<close>

lemma relPosition_mono:
  assumes "nle s1 s2" "is_finite elOffset" "0 < h"
  shows "nle (relPosition s1 elOffset (Fin h)) (relPosition s2 elOffset (Fin h))"
proof -
  from fsub_anti_right[OF assms(1,2)] have "nle (fsub elOffset s2) (fsub elOffset s1)" .
  from fdiv_mono[OF this assms(3)]
  have "nle (fdiv (fsub elOffset s2) (Fin h)) (fdiv (fsub elOffset s1) (Fin h))" .
  from fsub_anti_right[OF this, of "Fin 1"] show ?thesis by (simp add: relPosition_def)
qed

lemma progress_mono:
  assumes H: "is_double (Fin h)" "0 < h"
    and O: "is_finite elOffset"
    and S: "fless (startAt elOffset (Fin h)) END_OFFSET"
    and le: "nle s1 s2"
  shows "nle (progress s1 elOffset (Fin h)) (progress s2 elOffset (Fin h))"
proof -
  note st = startAt_below_END[OF H O S]
  from denominator_pos[OF st] obtain dq where
    d: "fsub END_OFFSET (startAt elOffset (Fin h)) = Fin dq" "0 < dq" by blast
  from relPosition_mono[OF le O H(2)]
  have "nle (fsub (relPosition s1 elOffset (Fin h)) (startAt elOffset (Fin h)))
            (fsub (relPosition s2 elOffset (Fin h)) (startAt elOffset (Fin h)))"
    by (rule fsub_mono_left) (rule st(1))
  from fdiv_mono[OF this d(2)] show ?thesis by (simp add: progress_def d(1))
qed

lemma relPosition_at_offset:
  assumes "nle elOffset scrollTop" "is_finite elOffset" "0 < h"
  shows "nle (Fin 1) (relPosition scrollTop elOffset (Fin h))"
proof -
  from fsub_anti_right[OF assms(1,2)] have "nle (fsub elOffset scrollTop) (Fin 0)"
    by (simp add: fsub_self assms(2))
  from fdiv_mono[OF this assms(3)] have "nle (fdiv (fsub elOffset scrollTop) (Fin h)) (Fin 0)"
    by (simp add: fdiv_zero assms(3))
  from fsub_anti_right[OF this, of "Fin 1"] show ?thesis
    by (simp add: relPosition_def one_minus_zero)
qed

lemma progress_saturates:
  assumes H: "is_double (Fin h)" "0 < h"
    and O: "is_finite elOffset"
    and S: "fless (startAt elOffset (Fin h)) END_OFFSET"
    and le: "nle elOffset scrollTop"
  shows "nle (Fin 1) (progress scrollTop elOffset (Fin h))"
proof -
  note st = startAt_below_END[OF H O S]
  from denominator_pos[OF st] obtain dq where
    d: "fsub END_OFFSET (startAt elOffset (Fin h)) = Fin dq" "0 < dq" by blast
  have "nle END_OFFSET (Fin 1)"
    using END_OFFSET_facts by (simp add: nle_finite less_imp_le)
  from nle_trans[OF this relPosition_at_offset[OF le O H(2)]]
  have "nle END_OFFSET (relPosition scrollTop elOffset (Fin h))" .
  then have "nle (fsub END_OFFSET (startAt elOffset (Fin h)))
      (fsub (relPosition scrollTop elOffset (Fin h)) (startAt elOffset (Fin h)))"
    by (rule fsub_mono_left) (rule st(1))
  from fdiv_mono[OF this d(2)]
  have "nle (fdiv (Fin dq) (Fin dq)) (progress scrollTop elOffset (Fin h))"
    by (simp add: progress_def d(1))
  moreover have "fdiv (Fin dq) (Fin dq) = Fin 1"
    using d(2) by (simp add: fdiv_pos to_double_def)
  ultimately show ?thesis by simp
qed

lemma highlight_monotone:
  assumes H: "is_double (Fin h)" "0 < h"
    and O: "is_finite elOffset"
    and S: "fless (startAt elOffset (Fin h)) END_OFFSET"
    and le: "nle s1 s2"
  shows "\<exists>n1 n2. highlight_range s1 elOffset (Fin h) = digits n1 @ ''%'' \<and>
     highlight_range s2 elOffset (Fin h) = digits n2 @ ''%'' \<and> n1 \<le> n2 \<and> n2 \<le> 100 \<and>
     (nle elOffset s2 \<longrightarrow> n2 = 100)"
proof -
  from progress_mono[OF H O S le]
  have pm: "nle (progress s1 elOffset (Fin h)) (progress s2 elOffset (Fin h))" .
  then have n: "progress s1 elOffset (Fin h) \<noteq> NaN" "progress s2 elOffset (Fin h) \<noteq> NaN"
    by (simp_all add: nle_def)
  from clamp_range[OF n(1)] obtain q1 where
    q1: "clampedProgress s1 elOffset (Fin h) = Fin q1" "0 \<le> q1" "q1 \<le> 1"
    unfolding clampedProgress_def by blast
  from clamp_range[OF n(2)] obtain q2 where
    q2: "clampedProgress s2 elOffset (Fin h) = Fin q2" "0 \<le> q2" "q2 \<le> 1"
    unfolding clampedProgress_def by blast
  from clamp_mono[OF pm] q1(1) q2(1) have "nle (Fin q1) (Fin q2)"
    by (simp add: clampedProgress_def)
  then have qq: "q1 \<le> q2" by (simp add: nle_finite)
  define n1 where "n1 = nat \<lfloor>round_mag (q1 * 100) + 1 / 2\<rfloor>"
  define n2 where "n2 = nat \<lfloor>round_mag (q2 * 100) + 1 / 2\<rfloor>"
  have "round_mag (q1 * 100) \<le> round_mag (q2 * 100)"
    using qq q1(2) by (intro round_mag_mono) simp_all
  then have "\<lfloor>round_mag (q1 * 100) + 1 / 2\<rfloor> \<le> \<lfloor>round_mag (q2 * 100) + 1 / 2\<rfloor>"
    by (intro floor_mono) simp
  then have le12: "n1 \<le> n2" unfolding n1_def n2_def by (rule nat_mono)
  have "round_mag (q2 * 100) \<le> round_mag 100"
    using q2 by (intro round_mag_mono) simp_all
  then have "round_mag (q2 * 100) \<le> 100" by simp
  moreover have "0 \<le> round_mag (q2 * 100)" using q2(2) by (intro round_mag_nonneg) simp
  ultimately have le100: "n2 \<le> 100" unfolding n2_def by (intro percent_le_100)
  have sat: "n2 = 100" if "nle elOffset s2"
  proof -
    from progress_saturates[OF H O S that]
    have "clampedProgress s2 elOffset (Fin h) = Fin 1"
      unfolding clampedProgress_def by (rule clamp_ge_1)
    with q2(1) have "q2 = 1" by simp
    then show ?thesis by (simp add: n2_def)
  qed
  have "highlight_range s1 elOffset (Fin h) = digits n1 @ ''%''"
    unfolding n1_def by (rule highlight_of_clamped[OF q1])
  moreover have "highlight_range s2 elOffset (Fin h) = digits n2 @ ''%''"
    unfolding n2_def by (rule highlight_of_clamped[OF q2])
  ultimately show ?thesis using le12 le100 sat by blast
qed

subsection \<open>The start of the page\<close>

lemma fsub_zero:
  assumes "is_double x" "is_finite x"
  shows "fsub x (Fin 0) = x"
proof (cases x)
  case (Fin q)
  with assms(1) have "to_double (q < 0) q = Fin q" by (simp add: is_double_def)
  show ?thesis
  proof (cases "q = 0")
    case True
    with Fin show ?thesis by (simp add: fsub_finite to_double_def)
  next
    case False
    then have "fsub (Fin q) (Fin 0) = to_double (q < 0) q" by (simp add: fsub_finite)
    with Fin \<open>to_double (q < 0) q = Fin q\<close> show ?thesis by simp
  qed
next
  case NegZero
  then show ?thesis by (simp add: fsub_finite to_double_def)
qed (use assms(2) in simp_all)

lemma highlight_adjusted_start:
  assumes H: "is_double (Fin h)" "0 < h"
    and O: "is_double elOffset" "is_finite elOffset"
    and adj: "fgt (startOffset (Fin h)) elOffset"
    and r: "fless (fsub (Fin 1) (fdiv elOffset (Fin h))) END_OFFSET"
  shows "highlight_range (Fin 0) elOffset (Fin h) = ''0%''"
proof -
  define R where "R = fsub (Fin 1) (fdiv elOffset (Fin h))"
  note a = adjusted_start[OF H O(2) adj r, folded R_def]
  have rel: "relPosition (Fin 0) elOffset (Fin h) = R"
    by (simp add: relPosition_def fsub_zero[OF O] R_def)
  from r have n: "R \<noteq> NaN" by (simp add: fless_def R_def)
  have st: "startAt elOffset (Fin h) = R"
    using adj r n END_OFFSET_facts(1)
    by (auto simp: startAt_def math_min_def R_def[symmetric])
  from denominator_pos[OF a] obtain dq where d: "fsub END_OFFSET R = Fin dq" "0 < dq" by blast
  have "progress (Fin 0) elOffset (Fin h) = Fin 0"
    using d(2) by (simp add: progress_def rel st fsub_self[OF a(1)] d(1) fdiv_zero)
  then have "clampedProgress (Fin 0) elOffset (Fin h) = Fin 0"
    by (simp add: clampedProgress_def clamp_value fless_def)
  then show ?thesis by (rule highlight_0)
qed

subsection \<open>The degenerate range\<close>

lemma fdiv_by_zero:
  "x = PosInf \<or> (\<exists>w. x = Fin w \<and> 0 < w) \<Longrightarrow> fdiv x (Fin 0) = PosInf"
  "x = NegInf \<or> (\<exists>w. x = Fin w \<and> w < 0) \<Longrightarrow> fdiv x (Fin 0) = NegInf"
  by (auto simp: fdiv_def is_inf_def)

lemma above_END:
  assumes "fless END_OFFSET (fsub x y)"
  shows "fsub (fsub x y) END_OFFSET = PosInf \<or> (\<exists>w. fsub (fsub x y) END_OFFSET = Fin w \<and> 0 < w)"
proof (cases "is_finite (fsub x y)")
  case True
  from assms True have "val END_OFFSET < val (fsub x y)"
    using END_OFFSET_facts(1) by (auto simp: fless_def is_finite_rank)
  from fsub_pos[OF True END_OFFSET_facts(1) on_grid_fsub[OF True] END_OFFSET_facts(5) this]
  show ?thesis .
next
  case False
  with assms have "fsub x y = PosInf"
    using END_OFFSET_facts(1) by (cases "fsub x y") (auto simp: fless_def is_finite_rank)
  then show ?thesis using END_OFFSET_facts(1) by (simp add: fsub_def[of PosInf] fadd_inf_left)
qed

lemma below_END:
  assumes "fless (fsub x y) END_OFFSET"
  shows "fsub (fsub x y) END_OFFSET = NegInf \<or> (\<exists>w. fsub (fsub x y) END_OFFSET = Fin w \<and> w < 0)"
proof (cases "is_finite (fsub x y)")
  case True
  from assms True have "val (fsub x y) < val END_OFFSET"
    using END_OFFSET_facts(1) by (auto simp: fless_def is_finite_rank)
  from fsub_neg[OF True END_OFFSET_facts(1) on_grid_fsub[OF True] END_OFFSET_facts(5) this]
  show ?thesis .
next
  case False
  with assms have "fsub x y = NegInf"
    using END_OFFSET_facts(1) by (cases "fsub x y") (auto simp: fless_def is_finite_rank)
  then show ?thesis using END_OFFSET_facts(1) by (simp add: fsub_def[of NegInf] fadd_inf_left)
qed

lemma highlight_degenerate:
  assumes "startAt elOffset H = END_OFFSET"
  shows "fsub END_OFFSET (startAt elOffset H) = Fin 0"
    and "fless END_OFFSET (relPosition scrollTop elOffset H) \<Longrightarrow>
           highlight_range scrollTop elOffset H = ''100%''"
    and "fless (relPosition scrollTop elOffset H) END_OFFSET \<Longrightarrow>
           highlight_range scrollTop elOffset H = ''0%''"
proof -
  show z: "fsub END_OFFSET (startAt elOffset H) = Fin 0"
    by (simp add: assms end_minus_end)
  {
    assume "fless END_OFFSET (relPosition scrollTop elOffset H)"
    then have "progress scrollTop elOffset H = PosInf"
      unfolding progress_def z unfolding assms relPosition_def
      by (intro fdiv_by_zero above_END)
    then have "clampedProgress scrollTop elOffset H = Fin 1"
      by (simp add: clampedProgress_def clamp_PosInf)
    then show "highlight_range scrollTop elOffset H = ''100%''" by (rule highlight_100)
  }
  {
    assume "fless (relPosition scrollTop elOffset H) END_OFFSET"
    then have "progress scrollTop elOffset H = NegInf"
      unfolding progress_def z unfolding assms relPosition_def
      by (intro fdiv_by_zero below_END)
    then have "clampedProgress scrollTop elOffset H = Fin 0"
      by (simp add: clampedProgress_def clamp_NegInf)
    then show "highlight_range scrollTop elOffset H = ''0%''" by (rule highlight_0)
  }
qed

subsection \<open>Offsets 200, 300 and 500 in a window of height 1000\<close>

lemma double_1000: "is_double (Fin 1000)" "is_double (Fin 500)"
  by (simp_all add: is_double_def num_eval)

lemma ratio_200_1000: "fdiv (Fin 200) (Fin 1000) = Fin (3602879701896397 / 2 ^ 54)"
  by (simp add: num_eval)

lemma one_minus_ratio_200_1000:
  "fsub (Fin 1) (fdiv (Fin 200) (Fin 1000)) = Fin (3602879701896397 / 2 ^ 52)"
  unfolding ratio_200_1000 by (simp add: num_eval)

lemma startAt_200_1000: "startAt (Fin 200) (Fin 1000) = END_OFFSET"
  by (simp add: startAt_def startOffset_1000 one_minus_ratio_200_1000)
     (simp add: END_OFFSET_value fgt_def fless_def math_min_def)

lemma relPosition_0_200_1000:
  "relPosition (Fin 0) (Fin 200) (Fin 1000) = Fin (3602879701896397 / 2 ^ 52)"
  by (simp add: relPosition_def fsub_zero is_double_def) (simp add: num_eval)

lemma ratio_300_1000: "fdiv (Fin 300) (Fin 1000) = START_OFFSET"
  by (simp add: START_OFFSET_value num_eval)

lemma startAt_300_1000: "startAt (Fin 300) (Fin 1000) = END_OFFSET"
  by (simp add: startAt_def startOffset_1000 ratio_300_1000 one_minus_start)
     (simp add: END_OFFSET_value fgt_def fless_def math_min_def)

lemma relPosition_0_300_1000: "relPosition (Fin 0) (Fin 300) (Fin 1000) = END_OFFSET"
proof -
  have "fsub (Fin 300) (Fin 0) = Fin 300" by (simp add: num_eval)
  then show ?thesis by (simp add: relPosition_def ratio_300_1000 one_minus_start)
qed

lemma progress_0_300_1000: "progress (Fin 0) (Fin 300) (Fin 1000) = NaN"
  by (simp add: progress_def relPosition_0_300_1000 startAt_300_1000 end_minus_end)
     (simp add: fdiv_def is_inf_def)

lemma one_minus_ratio_500_1000: "fsub (Fin 1) (fdiv (Fin 500) (Fin 1000)) = Fin (1 / 2)"
  by (simp add: num_eval)

section \<open>The tracker\<close>

subsection \<open>update\<close>

lemma update_el_frame:
  "elements (update_el x s el) = elements s"
  "offsets (update_el x s el) = offsets s"
  "windowHeight (update_el x s el) = windowHeight s"
  by (simp_all add: update_el_def)

lemma foldl_update_el_frame:
  "elements (foldl (update_el x) s xs) = elements s \<and>
   offsets (foldl (update_el x) s xs) = offsets s \<and>
   windowHeight (foldl (update_el x) s xs) = windowHeight s"
  by (induction xs arbitrary: s) (simp_all add: update_el_frame)

lemma foldl_update_el_style:
  "style (foldl (update_el x) s xs) el =
     (if el \<in> set xs
      then Some (highlight_range x (ToNumber (offsets s el)) (ToNumber (windowHeight s)))
      else style s el)"
proof (induction xs arbitrary: s)
  case Nil
  show ?case by simp
next
  case (Cons a xs)
  show ?case
    by (simp add: Cons.IH update_el_frame) (simp add: update_el_def)
qed

lemma update_frame:
  "elements (update x s) = elements s"
  "offsets (update x s) = offsets s"
  "windowHeight (update x s) = windowHeight s"
  by (simp_all add: update_def foldl_update_el_frame)

lemma update_style:
  "style (update x s) el =
     (if el \<in> set (elements s)
      then Some (highlight_range x (ToNumber (offsets s el)) (ToNumber (windowHeight s)))
      else style s el)"
  by (simp add: update_def foldl_update_el_style)

lemma update_more: "state.more (update x s) = state.more s"
proof -
  have "state.more (foldl (update_el x) s xs) = state.more s" for xs
    by (induction xs arbitrary: s) (simp_all add: update_el_def)
  then show ?thesis by (simp add: update_def)
qed

text \<open>
  C7. Calling \<^verbatim>\<open>update(x)\<close> a second time with nothing changed in between leaves the
  state as the first call left it, and what a call writes to a tracked element is
  determined by \<open>x\<close>, the cached offset of the element and the cached window height.
\<close>

theorem update_idempotent:
  "update x (update x s) = update x s \<and>
   (\<forall>el \<in> set (elements s). style (update x s) el =
      Some (highlight_range x (ToNumber (offsets s el)) (ToNumber (windowHeight s))))"
proof
  show "update x (update x s) = update x s"
  proof (rule state.equality)
    show "style (update x (update x s)) = style (update x s)"
      by (rule ext) (simp add: update_style update_frame)
  qed (simp_all add: update_frame update_more)
  show "\<forall>el \<in> set (elements s). style (update x s) el =
      Some (highlight_range x (ToNumber (offsets s el)) (ToNumber (windowHeight s)))"
    by (simp add: update_style)
qed

text \<open>
  C9. \<^verbatim>\<open>update\<close> leaves the tracked elements, the offset cache and the cached window
  height as they are; it changes the style property of the tracked elements and of no
  other element.
\<close>

theorem update_frame_only_style:
  "elements (update x s) = elements s \<and>
   offsets (update x s) = offsets s \<and>
   windowHeight (update x s) = windowHeight s \<and>
   (\<forall>el. el \<notin> set (elements s) \<longrightarrow> style (update x s) el = style s el)"
  by (simp add: update_frame update_style)

subsection \<open>reflow\<close>

lemma offset_loop_ancestors:
  "ancestors d el ns \<Longrightarrow> offset_loop d acc el = Some (foldl fadd acc (map (offsetTop d) ns))"
proof (induction arbitrary: acc rule: ancestors.induct)
  case (root d el)
  then show ?case by (subst offset_loop.simps) simp
next
  case (step d el p ns)
  show ?case
    by (subst offset_loop.simps) (simp add: step.hyps step.IH)
qed

lemma offset_loop_returns:
  "offset_loop d acc el = Some v \<Longrightarrow>
     \<exists>ns. ancestors d el ns \<and> v = foldl fadd acc (map (offsetTop d) ns)"
proof (induction arbitrary: rule: offset_loop.raw_induct[rotated 1, consumes 1])
  case (1 offset_loop' d acc el v)
  show ?case
  proof (cases "offsetParent d el")
    case None
    with 1(2) have "v = fadd acc (offsetTop d el)" by simp
    with None show ?thesis
      by (intro exI[of _ "[el]"]) (simp add: ancestors.root)
  next
    case (Some p)
    with 1(2) have "offset_loop' d (fadd acc (offsetTop d el)) p = Some v" by simp
    from 1(1)[OF this] obtain ns where
      "ancestors d p ns" "v = foldl fadd (fadd acc (offsetTop d el)) (map (offsetTop d) ns)"
      by blast
    with Some show ?thesis
      by (intro exI[of _ "el # ns"]) (simp add: ancestors.step)
  qed
qed

lemma ancestors_unique: "ancestors d el ns \<Longrightarrow> ancestors d el ms \<Longrightarrow> ms = ns"
proof (induction arbitrary: ms rule: ancestors.induct)
  case (root d el)
  from root.prems root.hyps show ?case by (cases rule: ancestors.cases) simp_all
next
  case (step d el p ns)
  from step.prems step.hyps show ?case
    by (cases rule: ancestors.cases) (simp_all add: step.IH)
qed

lemma getPageOffsetTop_iff:
  "getPageOffsetTop d el = Some v \<longleftrightarrow> (\<exists>ns. ancestors d el ns \<and> v = page_top d ns)"
  unfolding getPageOffsetTop_def page_top_def
  using offset_loop_returns offset_loop_ancestors by fastforce

lemma reflow_each_Some:
  "reflow_each d els offs = Some offs' \<Longrightarrow>
     offs' el = (if el \<in> set els then getPageOffsetTop d el else offs el)"
proof (induction els arbitrary: offs)
  case Nil
  then show ?case by simp
next
  case (Cons a els)
  then obtain v where v: "getPageOffsetTop d a = Some v"
    and r: "reflow_each d els (offs(a \<mapsto> v)) = Some offs'"
    by (auto split: option.splits)
  from Cons.IH[OF r] v show ?case by auto
qed

lemma reflow_each_Some_all:
  "reflow_each d els offs = Some offs' \<Longrightarrow> el \<in> set els \<Longrightarrow> getPageOffsetTop d el \<noteq> None"
  by (induction els arbitrary: offs) (auto split: option.splits)

lemma reflow_each_total:
  "(\<forall>el \<in> set els. getPageOffsetTop d el \<noteq> None) \<Longrightarrow> \<exists>offs'. reflow_each d els offs = Some offs'"
  by (induction els arbitrary: offs) (auto split: option.splits)

lemma reflow_returns_iff:
  "reflow d s \<noteq> None \<longleftrightarrow> (\<forall>el \<in> set (elements s). \<exists>ns. ancestors d el ns)"
proof
  assume "reflow d s \<noteq> None"
  then obtain offs' where r: "reflow_each d (elements s) (offsets s) = Some offs'"
    by (auto simp: reflow_def split: option.splits)
  show "\<forall>el \<in> set (elements s). \<exists>ns. ancestors d el ns"
  proof
    fix el assume "el \<in> set (elements s)"
    from reflow_each_Some_all[OF r this] obtain v where "getPageOffsetTop d el = Some v" by auto
    then show "\<exists>ns. ancestors d el ns" by (auto simp: getPageOffsetTop_iff)
  qed
next
  assume a: "\<forall>el \<in> set (elements s). \<exists>ns. ancestors d el ns"
  have "\<forall>el \<in> set (elements s). getPageOffsetTop d el \<noteq> None"
  proof
    fix el assume "el \<in> set (elements s)"
    with a obtain ns where "ancestors d el ns" by blast
    then have "getPageOffsetTop d el = Some (page_top d ns)" by (auto simp: getPageOffsetTop_iff)
    then show "getPageOffsetTop d el \<noteq> None" by simp
  qed
  from reflow_each_total[OF this] obtain offs' where
    "reflow_each d (elements s) (offsets s) = Some offs'" by blast
  then show "reflow d s \<noteq> None" by (simp add: reflow_def)
qed

lemma reflow_Some:
  assumes "reflow d s = Some s'"
  shows "windowHeight s' = Some (innerHeight d)"
    and "elements s' = elements s"
    and "style s' = style s"
    and "offsets s' el = (if el \<in> set (elements s) then getPageOffsetTop d el else offsets s el)"
proof -
  from assms obtain offs' where r: "reflow_each d (elements s) (offsets s) = Some offs'"
    and s': "s' = s\<lparr>windowHeight := Some (innerHeight d), offsets := offs'\<rparr>"
    by (auto simp: reflow_def split: option.splits)
  from s' show "windowHeight s' = Some (innerHeight d)" "elements s' = elements s" "style s' = style s"
    by simp_all
  from reflow_each_Some[OF r] s'
  show "offsets s' el = (if el \<in> set (elements s) then getPageOffsetTop d el else offsets s el)"
    by simp
qed

subsection \<open>Sums of integers\<close>

lemma round_mag_of_int:
  assumes "0 \<le> n" "n \<le> 2 ^ 53"
  shows "round_mag (of_int n) = of_int n"
proof (cases "n = 0")
  case True
  then show ?thesis by simp
next
  case False
  with assms have pos: "0 < (of_int n :: rat)" and one: "1 \<le> (of_int n :: rat)" by simp_all
  define e where "e = binade (of_int n)"
  have ra: "round_mag (of_int n) = of_int (rne (of_int n / pow2 (e - 52))) * pow2 (e - 52)"
    using pos by (simp add: round_mag_def Let_def e_def)
  have le: "(of_int n :: rat) \<le> 2 ^ 53" using assms(2) by (metis of_int_le_iff of_int_numeral of_int_power)
  have e0: "0 \<le> e"
  proof (rule ccontr)
    assume "\<not> 0 \<le> e"
    then have "e + 1 \<le> 0" "binade (of_int n) < 1024" by (simp_all add: e_def)
    from binade_spec(3)[OF pos this(2)] have "of_int n < pow2 (e + 1)" by (simp add: e_def)
    also have "pow2 (e + 1) \<le> pow2 0" using \<open>e + 1 \<le> 0\<close> by (rule pow2_mono)
    finally show False using one by simp
  qed
  have e53: "e \<le> 53"
  proof (rule ccontr)
    assume "\<not> e \<le> 53"
    then have "54 \<le> e" "- 1022 < binade (of_int n)" by (simp_all add: e_def)
    from binade_spec(4)[OF pos this(2)] have "pow2 e \<le> of_int n" by (simp add: e_def)
    moreover have "pow2 54 \<le> pow2 e" using \<open>54 \<le> e\<close> by (rule pow2_mono)
    ultimately show False using le by simp
  qed
  show ?thesis
  proof (cases "e \<le> 52")
    case True
    have u: "pow2 (e - 52) = 1 / of_int (2 ^ nat (52 - e))"
      using True by (auto simp: pow2_def)
    have "of_int n / pow2 (e - 52) = of_int (n * 2 ^ nat (52 - e))"
      by (simp add: u)
    then have "rne (of_int n / pow2 (e - 52)) = n * 2 ^ nat (52 - e)"
      by (simp only: rne_of_int)
    then show ?thesis unfolding ra by (simp add: u)
  next
    case False
    with e53 have e: "e = 53" by simp
    then have "- 1022 < binade (of_int n)" by (simp add: e_def)
    from binade_spec(4)[OF pos this] have "pow2 e \<le> of_int n" by (simp add: e_def)
    then have "(2 :: rat) ^ 53 \<le> of_int n" by (simp add: e)
    with le have n: "(of_int n :: rat) = 2 ^ 53" by simp
    have "of_int n / pow2 (e - 52) = of_int (2 ^ 52)" by (simp add: e n)
    then have "rne (of_int n / pow2 (e - 52)) = 2 ^ 52" by (simp only: rne_of_int)
    then show ?thesis unfolding ra by (simp add: e n)
  qed
qed

lemma fadd_of_int:
  assumes "\<bar>a + b\<bar> \<le> 2 ^ 53"
  shows "fadd (Fin (of_int a)) (Fin (of_int b)) = Fin (of_int (a + b))"
proof -
  define q :: rat where "q = of_int a + of_int b"
  have q: "q = of_int (a + b)" by (simp add: q_def)
  have aq: "\<bar>q\<bar> = of_int \<bar>a + b\<bar>" by (simp add: q)
  have r: "round_mag \<bar>q\<bar> = \<bar>q\<bar>"
    unfolding aq using assms by (intro round_mag_of_int) simp_all
  have "of_int \<bar>a + b\<bar> \<le> (of_int (2 ^ 53) :: rat)" using assms by (simp only: of_int_le_iff)
  then have b: "\<not> (2 :: rat) ^ 1024 \<le> \<bar>q\<bar>" unfolding aq by simp
  have f: "fadd (Fin (of_int a)) (Fin (of_int b)) =
      to_double (if q = 0 then (of_int a :: rat) < 0 \<and> (of_int b :: rat) < 0 else q < 0) q"
    by (simp add: fadd_finite q_def)
  show ?thesis
  proof (cases "q = 0")
    case True
    then have "a + b = 0" by (simp add: q)
    then have "\<not> (a < 0 \<and> b < 0)" by linarith
    then have "\<not> ((of_int a :: rat) < 0 \<and> (of_int b :: rat) < 0)" by simp
    with True f have "fadd (Fin (of_int a)) (Fin (of_int b)) = to_double False 0" by auto
    also have "\<dots> = Fin 0" by (simp add: to_double_def)
    finally show ?thesis using True by (simp add: q_def)
  next
    case False
    with f have "fadd (Fin (of_int a)) (Fin (of_int b)) = to_double (q < 0) q" by simp
    also have "\<dots> = Fin q"
      unfolding to_double_def Let_def r using b False by auto
    finally show ?thesis by (simp add: q)
  qed
qed

lemma foldl_fadd_of_int:
  assumes "\<forall>n \<in> set ns. tp n = Fin (of_int (k n))"
    and "\<bar>a\<bar> + (\<Sum>n\<leftarrow>ns. \<bar>k n\<bar>) \<le> 2 ^ 53"
  shows "foldl fadd (Fin (of_int a)) (map tp ns) = Fin (of_int (a + (\<Sum>n\<leftarrow>ns. k n)))"
  using assms
proof (induction ns arbitrary: a)
  case Nil
  then show ?case by simp
next
  case (Cons x ns)
  have s: "0 \<le> (\<Sum>n\<leftarrow>ns. \<bar>k n\<bar>)" by (rule sum_list_nonneg) auto
  from Cons.prems(2) s have "\<bar>a + k x\<bar> \<le> 2 ^ 53" by simp
  then have f: "fadd (Fin (of_int a)) (Fin (of_int (k x))) = Fin (of_int (a + k x))"
    by (rule fadd_of_int)
  have "\<bar>a + k x\<bar> + (\<Sum>n\<leftarrow>ns. \<bar>k n\<bar>) \<le> 2 ^ 53" using Cons.prems(2) by simp
  with Cons.IH[of "a + k x"] Cons.prems(1)
  have "foldl fadd (Fin (of_int (a + k x))) (map tp ns) =
      Fin (of_int (a + k x + (\<Sum>n\<leftarrow>ns. k n)))" by simp
  with Cons.prems(1) f show ?case by (simp add: add.assoc)
qed

lemma page_top_of_int:
  assumes "\<forall>n \<in> set ns. offsetTop d n = Fin (of_int (k n))"
    and "(\<Sum>n\<leftarrow>ns. \<bar>k n\<bar>) \<le> 2 ^ 53"
  shows "page_top d ns = Fin (of_int (\<Sum>n\<leftarrow>ns. k n))"
  using foldl_fadd_of_int[of ns "offsetTop d" k 0] assms by (simp add: page_top_def)

text \<open>
  C8. \<^verbatim>\<open>reflow\<close> returns exactly when the chain of positioning contexts of every tracked
  element ends. The state it returns holds the height of the window, the same elements,
  and for every tracked element the sum of \<^verbatim>\<open>offsetTop\<close> along its chain, whatever the
  cache held before. The sum is the one the loop computes, in binary64 from the element
  upwards; where the values of \<^verbatim>\<open>offsetTop\<close> are integers whose magnitudes add up to
  at most \<open>2^53\<close>, it is their exact sum.
\<close>

theorem reflow_caches_page_offsets:
  "(reflow d s \<noteq> None \<longleftrightarrow> (\<forall>el \<in> set (elements s). \<exists>ns. ancestors d el ns)) \<and>
   (\<forall>s'. reflow d s = Some s' \<longrightarrow>
      windowHeight s' = Some (innerHeight d) \<and>
      elements s' = elements s \<and>
      (\<forall>el \<in> set (elements s'). \<exists>ns. ancestors d el ns \<and> offsets s' el = Some (page_top d ns)) \<and>
      (\<forall>el \<in> set (elements s'). \<forall>ns k. ancestors d el ns \<longrightarrow>
         (\<forall>n \<in> set ns. offsetTop d n = Fin (of_int (k n))) \<longrightarrow>
         (\<Sum>n\<leftarrow>ns. \<bar>k n\<bar>) \<le> 2 ^ 53 \<longrightarrow>
         offsets s' el = Some (Fin (of_int (\<Sum>n\<leftarrow>ns. k n)))))"
proof (intro conjI allI impI)
  show "reflow d s \<noteq> None \<longleftrightarrow> (\<forall>el \<in> set (elements s). \<exists>ns. ancestors d el ns)"
    by (rule reflow_returns_iff)
next
  fix s' assume r: "reflow d s = Some s'"
  show "windowHeight s' = Some (innerHeight d)" "elements s' = elements s"
    using reflow_Some[OF r] by simp_all
  have chain: "offsets s' el = Some (page_top d ns)"
    if "el \<in> set (elements s')" "ancestors d el ns" for el ns
  proof -
    from that(1) have el: "el \<in> set (elements s)" using reflow_Some(2)[OF r] by simp
    from that(2) have "getPageOffsetTop d el = Some (page_top d ns)"
      by (auto simp: getPageOffsetTop_iff)
    with reflow_Some(4)[OF r, of el] el show ?thesis by simp
  qed
  show "\<forall>el \<in> set (elements s'). \<exists>ns. ancestors d el ns \<and> offsets s' el = Some (page_top d ns)"
  proof
    fix el assume el: "el \<in> set (elements s')"
    then have "el \<in> set (elements s)" using reflow_Some(2)[OF r] by simp
    moreover from r have "reflow d s \<noteq> None" by simp
    ultimately obtain ns where ns: "ancestors d el ns" using reflow_returns_iff by blast
    with chain[OF el ns]
    show "\<exists>ns. ancestors d el ns \<and> offsets s' el = Some (page_top d ns)" by blast
  qed
  show "\<forall>el \<in> set (elements s'). \<forall>ns k. ancestors d el ns \<longrightarrow>
         (\<forall>n \<in> set ns. offsetTop d n = Fin (of_int (k n))) \<longrightarrow>
         (\<Sum>n\<leftarrow>ns. \<bar>k n\<bar>) \<le> 2 ^ 53 \<longrightarrow>
         offsets s' el = Some (Fin (of_int (\<Sum>n\<leftarrow>ns. k n)))"
  proof (intro ballI allI impI)
    fix el ns and k :: "element \<Rightarrow> int"
    assume "el \<in> set (elements s')" "ancestors d el ns"
      and "\<forall>n \<in> set ns. offsetTop d n = Fin (of_int (k n))"
      and "(\<Sum>n\<leftarrow>ns. \<bar>k n\<bar>) \<le> 2 ^ 53"
    then show "offsets s' el = Some (Fin (of_int (\<Sum>n\<leftarrow>ns. k n)))"
      by (simp add: chain page_top_of_int)
  qed
qed

subsection \<open>push\<close>

lemma push_total:
  assumes "\<forall>el \<in> set (elements s @ args). \<exists>ns. ancestors d el ns"
  shows "\<exists>s'. reflow d (s\<lparr>elements := elements s @ args\<rparr>) = Some s' \<and>
     push d args s = Some (length (elements s) + length args, s')"
proof -
  from assms have "reflow d (s\<lparr>elements := elements s @ args\<rparr>) \<noteq> None"
    by (subst reflow_returns_iff) simp
  then show ?thesis by (auto simp: push_def array_push_def)
qed

text \<open>
  C10. On a page where the chains of positioning contexts end, the replaced \<^verbatim>\<open>push\<close>
  returns what \<^verbatim>\<open>Array.prototype.push\<close> returns, the new length, and leaves the
  arguments at the end of \<^verbatim>\<open>elements\<close> in their order; the state is the one that
  \<^verbatim>\<open>reflow\<close> gives after the append.
\<close>

theorem push_appends_like_array_push:
  assumes "\<forall>el \<in> set (elements s @ args). \<exists>ns. ancestors d el ns"
  shows "\<exists>s'. push d args s = Some (snd (array_push (elements s) args), s') \<and>
     elements s' = fst (array_push (elements s) args) \<and>
     elements s' = elements s @ args \<and>
     snd (array_push (elements s) args) = length (elements s) + length args \<and>
     reflow d (s\<lparr>elements := elements s @ args\<rparr>) = Some s'"
proof -
  from push_total[OF assms] obtain s' where
    r: "reflow d (s\<lparr>elements := elements s @ args\<rparr>) = Some s'"
    and p: "push d args s = Some (length (elements s) + length args, s')" by blast
  from reflow_Some(2)[OF r] have "elements s' = elements s @ args" by simp
  with r p show ?thesis by (simp add: array_push_def)
qed


text \<open>The constructor leaves a filled cache and a written style for every element.\<close>

lemma scrollHighlighter_returns:
  assumes "scrollHighlighter d els st = Some s"
  shows "elements s = els" "windowHeight s = Some (innerHeight d)"
    and "el \<in> set els \<Longrightarrow> \<exists>ns. ancestors d el ns \<and> offsets s el = Some (page_top d ns) \<and>
           style s el = Some (highlight_range (Fin 0) (page_top d ns) (innerHeight d))"
proof -
  let ?i = "\<lparr>elements = els, offsets = Map.empty, windowHeight = None, style = st\<rparr>"
  from assms obtain s0 where r: "reflow d ?i = Some s0" and s: "s = update (Fin 0) s0"
    by (auto simp: scrollHighlighter_def split: option.splits)
  from reflow_Some(1,2)[OF r] show e: "elements s = els" and h: "windowHeight s = Some (innerHeight d)"
    by (simp_all add: s update_frame)
  assume el: "el \<in> set els"
  from r have "reflow d ?i \<noteq> None" by simp
  with el obtain ns where ns: "ancestors d el ns" using reflow_returns_iff[of d ?i] by auto
  then have "getPageOffsetTop d el = Some (page_top d ns)" by (auto simp: getPageOffsetTop_iff)
  with reflow_Some(4)[OF r, of el] el have o: "offsets s0 el = Some (page_top d ns)" by simp
  with reflow_Some(1,2)[OF r] el ns
  show "\<exists>ns. ancestors d el ns \<and> offsets s el = Some (page_top d ns) \<and>
           style s el = Some (highlight_range (Fin 0) (page_top d ns) (innerHeight d))"
    by (intro exI[of _ ns]) (simp add: s update_frame update_style)
qed

lemma update_one_element:
  "style (update x (one_element elOffset H)) 0 = Some (highlight_range x elOffset H)"
  by (simp add: update_style one_element_def)

section \<open>Concrete cases\<close>

theorem update_idempotent_witness:
  "0 \<in> set (elements (one_element (Fin 1000) (Fin 1000))) \<and>
   update (Fin 650) (update (Fin 650) (one_element (Fin 1000) (Fin 1000))) =
     update (Fin 650) (one_element (Fin 1000) (Fin 1000)) \<and>
   style (update (Fin 650) (one_element (Fin 1000) (Fin 1000))) 0 = Some ''88%''"
proof -
  have m: "0 \<in> set (elements (one_element (Fin 1000) (Fin 1000)))"
    by (simp add: one_element_def)
  have o: "ToNumber (offsets (one_element (Fin 1000) (Fin 1000)) 0) = Fin 1000"
    "ToNumber (windowHeight (one_element (Fin 1000) (Fin 1000))) = Fin 1000"
    by (simp_all add: one_element_def)
  from update_idempotent[of "Fin 650" "one_element (Fin 1000) (Fin 1000)"] m
  show ?thesis by (simp add: o highlight_650_1000_1000)
qed

theorem update_frame_only_style_witness:
  "elements (update (Fin 650) (one_element (Fin 1000) (Fin 1000))) = [0] \<and>
   offsets (update (Fin 650) (one_element (Fin 1000) (Fin 1000))) = [0 \<mapsto> Fin 1000] \<and>
   windowHeight (update (Fin 650) (one_element (Fin 1000) (Fin 1000))) = Some (Fin 1000) \<and>
   1 \<notin> set (elements (one_element (Fin 1000) (Fin 1000))) \<and>
   style (update (Fin 650) (one_element (Fin 1000) (Fin 1000))) 1 = None"
proof -
  have m: "1 \<notin> set (elements (one_element (Fin 1000) (Fin 1000)))"
    by (simp add: one_element_def)
  from update_frame_only_style[of "Fin 650" "one_element (Fin 1000) (Fin 1000)"] m
  show ?thesis by (simp add: one_element_def)
qed

lemma example_chain_0: "ancestors example_page 0 [0, 2]"
  by (rule ancestors.step[OF _ ancestors.root]) (simp_all add: example_page_def)

lemma example_chain_1: "ancestors example_page 1 [1]"
  by (rule ancestors.root) (simp add: example_page_def)

lemma example_top_0: "page_top example_page [0, 2] = Fin 1000"
  by (simp add: page_top_def example_page_def) (simp add: num_eval)


lemma example_offset_0: "getPageOffsetTop example_page 0 = Some (Fin 1000)"
  by (subst getPageOffsetTop_iff) (rule exI[of _ "[0, 2]"], rule conjI, rule example_chain_0, rule example_top_0[symmetric])


theorem reflow_caches_page_offsets_witness:
  "ancestors example_page 0 [0, 2] \<and>
   offsetTop example_page 0 = Fin (of_int 300) \<and>
   offsetTop example_page 2 = Fin (of_int 700) \<and>
   reflow example_page (one_element NaN NaN) \<noteq> None \<and>
   windowHeight (the (reflow example_page (one_element NaN NaN))) = Some (Fin 1000) \<and>
   elements (the (reflow example_page (one_element NaN NaN))) = [0] \<and>
   offsets (the (reflow example_page (one_element NaN NaN))) 0 = Some (Fin 1000)"
proof -
  let ?s = "one_element NaN NaN"
  let ?k = "\<lambda>n::element. if n = 0 then 300 else 700 :: int"
  have els: "elements ?s = [0]" by (simp add: one_element_def)
  have c: "\<forall>el \<in> set (elements ?s). \<exists>ns. ancestors example_page el ns"
    using example_chain_0 by (auto simp: els)
  have k: "\<forall>n \<in> set [0, 2]. offsetTop example_page n = Fin (of_int (?k n))"
    by (simp add: example_page_def)
  have b: "(\<Sum>n\<leftarrow>[0, 2]. \<bar>?k n\<bar>) \<le> 2 ^ 53" by simp
  note t = reflow_caches_page_offsets[of example_page ?s]
  from t c have "reflow example_page ?s \<noteq> None" by blast
  then obtain s' where s': "reflow example_page ?s = Some s'" by blast
  with t have w: "windowHeight s' = Some (innerHeight example_page)"
    and e: "elements s' = elements ?s"
    and o: "\<forall>el \<in> set (elements s'). \<forall>ns k. ancestors example_page el ns \<longrightarrow>
         (\<forall>n \<in> set ns. offsetTop example_page n = Fin (of_int (k n))) \<longrightarrow>
         (\<Sum>n\<leftarrow>ns. \<bar>k n\<bar>) \<le> 2 ^ 53 \<longrightarrow>
         offsets s' el = Some (Fin (of_int (\<Sum>n\<leftarrow>ns. k n)))"
    by blast+
  from e els have m: "0 \<in> set (elements s')" by simp
  have "offsets s' 0 = Some (Fin (of_int (\<Sum>n\<leftarrow>[0, 2]. ?k n)))"
    by (rule o[rule_format, OF m example_chain_0 k[rule_format] b])
  then have "offsets s' 0 = Some (Fin 1000)" by simp
  with s' w e els example_chain_0 show ?thesis by (simp add: example_page_def)
qed

theorem push_appends_like_array_push_witness:
  "push example_page [1] (one_element NaN NaN) \<noteq> None \<and>
   fst (the (push example_page [1] (one_element NaN NaN))) = 2 \<and>
   elements (snd (the (push example_page [1] (one_element NaN NaN)))) = [0, 1]"
proof -
  let ?s = "one_element NaN NaN"
  have els: "elements ?s = [0]" by (simp add: one_element_def)
  have c: "\<forall>el \<in> set (elements ?s @ [1]). \<exists>ns. ancestors example_page el ns"
    using example_chain_0 example_chain_1 by (auto simp: els)
  from push_appends_like_array_push[OF c] show ?thesis
    by (auto simp: els array_push_def)
qed


text \<open>
  C5. One element with cached offset 1000 and cached window height 1000: the adaptive
  adjustment does not apply; \<^verbatim>\<open>update(0)\<close> has the raw progress \<open>-0.75\<close> and writes
  \<^verbatim>\<open>0%\<close>; \<^verbatim>\<open>update(650)\<close> has a raw progress one unit in the last place above
  \<open>0.875\<close> and writes \<^verbatim>\<open>88%\<close>.
\<close>

theorem scenario_offset_1000_height_1000:
  "startAt (Fin 1000) (Fin 1000) = START_OFFSET \<and>
   progress (Fin 0) (Fin 1000) (Fin 1000) = Fin (- 3 / 4) \<and>
   style (update (Fin 0) (one_element (Fin 1000) (Fin 1000))) 0 = Some ''0%'' \<and>
   progress (Fin 650) (Fin 1000) (Fin 1000) = Fin (7 / 8 + 1 / 2 ^ 53) \<and>
   style (update (Fin 650) (one_element (Fin 1000) (Fin 1000))) 0 = Some ''88%''"
  by (simp add: startAt_1000_1000 progress_0_1000_1000 progress_650_1000_1000
      update_one_element highlight_0_1000_1000 highlight_650_1000_1000)

section \<open>The thresholds of \<^verbatim>\<open>update\<close> on a tracker\<close>

text \<open>
  C1 (amended). When the adaptive adjustment applies to an element (the computed
  \<open>H * (1 - 0.3)\<close> is greater than its cached offset) and the adjusted start threshold
  \<open>1 - O/H\<close> is below the end threshold, \<^verbatim>\<open>update(0)\<close> writes \<^verbatim>\<open>0%\<close> to the
  element.
\<close>

theorem update_0_adjusted_start:
  assumes "el \<in> set (elements s)"
    and "offsets s el = Some elOffset" "is_double elOffset" "is_finite elOffset"
    and "windowHeight s = Some (Fin h)" "is_double (Fin h)" "0 < h"
    and "fgt (startOffset (Fin h)) elOffset"
    and "fless (fsub (Fin 1) (fdiv elOffset (Fin h))) END_OFFSET"
  shows "style (update (Fin 0) s) el = Some ''0%''"
  using assms by (simp add: update_style highlight_adjusted_start)

theorem update_0_adjusted_start_witness:
  "0 \<in> set (elements (one_element (Fin 500) (Fin 1000))) \<and>
   offsets (one_element (Fin 500) (Fin 1000)) 0 = Some (Fin 500) \<and>
   is_double (Fin 500) \<and> is_finite (Fin 500) \<and>
   windowHeight (one_element (Fin 500) (Fin 1000)) = Some (Fin 1000) \<and>
   is_double (Fin 1000) \<and> (0::rat) < 1000 \<and>
   fgt (startOffset (Fin 1000)) (Fin 500) \<and>
   fless (fsub (Fin 1) (fdiv (Fin 500) (Fin 1000))) END_OFFSET \<and>
   style (update (Fin 0) (one_element (Fin 500) (Fin 1000))) 0 = Some ''0%''"
proof -
  have a: "0 \<in> set (elements (one_element (Fin 500) (Fin 1000)))"
    "offsets (one_element (Fin 500) (Fin 1000)) 0 = Some (Fin 500)"
    "windowHeight (one_element (Fin 500) (Fin 1000)) = Some (Fin 1000)"
    by (simp_all add: one_element_def)
  have b: "fgt (startOffset (Fin 1000)) (Fin 500)"
    by (simp add: startOffset_1000 fgt_def fless_def)
  have c: "fless (fsub (Fin 1) (fdiv (Fin 500) (Fin 1000))) END_OFFSET"
    unfolding one_minus_ratio_500_1000 by (simp add: END_OFFSET_value fless_def)
  have d: "is_finite (Fin 500)" "(0::rat) < 1000" by simp_all
  from update_0_adjusted_start[OF a(1,2) double_1000(2) d(1) a(3) double_1000(1) d(2) b c]
    a b c d double_1000
  show ?thesis by simp
qed

theorem adaptive_start_counterexample:
  "fgt (startOffset (Fin 1000)) (Fin 200) \<and>
   style (update (Fin 0) (one_element (Fin 200) (Fin 1000))) 0 = Some ''100%'' \<and>
   style (update (Fin 0) (one_element (Fin 200) (Fin 1000))) 0 \<noteq> Some ''0%''"
proof -
  have "fless END_OFFSET (relPosition (Fin 0) (Fin 200) (Fin 1000))"
    by (simp add: relPosition_0_200_1000 END_OFFSET_value fless_def)
  from highlight_degenerate(2)[OF startAt_200_1000 this]
  show ?thesis
    by (simp add: update_one_element startOffset_1000 fgt_def fless_def)
qed

text \<open>
  C2. With cached offset 300 and cached window height 1000, \<^verbatim>\<open>update(0)\<close> divides zero
  by zero: the progress is NaN, the clamp keeps NaN, and the string written is
  \<^verbatim>\<open>NaN%\<close>.
\<close>

theorem update_writes_NaN:
  "progress (Fin 0) (Fin 300) (Fin 1000) = NaN \<and>
   clampedProgress (Fin 0) (Fin 300) (Fin 1000) = NaN \<and>
   style (update (Fin 0) (one_element (Fin 300) (Fin 1000))) 0 = Some ''NaN%''"
  by (simp add: update_one_element highlight_NaN progress_0_300_1000
      clampedProgress_def clamp_NaN)




text \<open>
  C6. For an element with a finite cached offset and a positive cached window height
  whose effective start threshold is below the end threshold, the percentage that
  \<^verbatim>\<open>update\<close> writes does not decrease when the scroll position increases, and
  neither does the clamped progress; the percentage is at most 100, and it is 100 from
  the scroll position of the offset on.
\<close>

theorem update_monotone:
  assumes "el \<in> set (elements s)"
    and "offsets s el = Some elOffset" "is_finite elOffset"
    and "windowHeight s = Some (Fin h)" "is_double (Fin h)" "0 < h"
    and "fless (startAt elOffset (Fin h)) END_OFFSET"
    and "nle scrollTop1 scrollTop2"
  shows "nle (clampedProgress scrollTop1 elOffset (Fin h))
            (clampedProgress scrollTop2 elOffset (Fin h)) \<and>
     (\<exists>n1 n2. style (update scrollTop1 s) el = Some (digits n1 @ ''%'') \<and>
        style (update scrollTop2 s) el = Some (digits n2 @ ''%'') \<and>
        n1 \<le> n2 \<and> n2 \<le> 100 \<and> (nle elOffset scrollTop2 \<longrightarrow> n2 = 100))"
proof
  show "nle (clampedProgress scrollTop1 elOffset (Fin h))
            (clampedProgress scrollTop2 elOffset (Fin h))"
    unfolding clampedProgress_def
    by (rule clamp_mono[OF progress_mono[OF assms(5,6,3,7,8)]])
  show "\<exists>n1 n2. style (update scrollTop1 s) el = Some (digits n1 @ ''%'') \<and>
        style (update scrollTop2 s) el = Some (digits n2 @ ''%'') \<and>
        n1 \<le> n2 \<and> n2 \<le> 100 \<and> (nle elOffset scrollTop2 \<longrightarrow> n2 = 100)"
    using assms(1,2,4) highlight_monotone[OF assms(5,6,3,7,8)] by (simp add: update_style)
qed

theorem update_monotone_witness:
  "0 \<in> set (elements (one_element (Fin 1000) (Fin 1000))) \<and>
   offsets (one_element (Fin 1000) (Fin 1000)) 0 = Some (Fin 1000) \<and> is_finite (Fin 1000) \<and>
   windowHeight (one_element (Fin 1000) (Fin 1000)) = Some (Fin 1000) \<and>
   is_double (Fin 1000) \<and> (0::rat) < 1000 \<and>
   fless (startAt (Fin 1000) (Fin 1000)) END_OFFSET \<and>
   nle (Fin 650) (Fin 1000) \<and>
   nle (clampedProgress (Fin 650) (Fin 1000) (Fin 1000))
       (clampedProgress (Fin 1000) (Fin 1000) (Fin 1000)) \<and>
   style (update (Fin 1000) (one_element (Fin 1000) (Fin 1000))) 0 = Some ''100%''"
proof -
  have a: "0 \<in> set (elements (one_element (Fin 1000) (Fin 1000)))"
    "offsets (one_element (Fin 1000) (Fin 1000)) 0 = Some (Fin 1000)"
    "windowHeight (one_element (Fin 1000) (Fin 1000)) = Some (Fin 1000)"
    by (simp_all add: one_element_def)
  have b: "fless (startAt (Fin 1000) (Fin 1000)) END_OFFSET"
    by (simp add: startAt_1000_1000 START_OFFSET_value END_OFFSET_value fless_def)
  have c: "nle (Fin 650) (Fin 1000)" by (simp add: nle_def)
  have d: "is_finite (Fin 1000)" "(0::rat) < 1000" by simp_all
  have e: "nle (Fin 1000) (Fin 1000)" by (simp add: nle_def)
  note t = update_monotone[OF a(1,2) d(1) a(3) double_1000(1) d(2) b c]
  from t e obtain n2 where
    "style (update (Fin 1000) (one_element (Fin 1000) (Fin 1000))) 0 = Some (digits n2 @ ''%'')"
    "n2 = 100" by blast
  then have "style (update (Fin 1000) (one_element (Fin 1000) (Fin 1000))) 0 = Some ''100%''"
    by (simp add: digit_def)
  with t a b c d double_1000(1) show ?thesis by simp
qed

end
